theory Spec2Isabelle
  imports Main "HOL-Library.Word"
begin

unbundle bit_operations_syntax

section \<open>The managed heap of dkp.cc\<close>

text \<open>
  A shallow embedding of \<^verbatim>\<open>src/dkp.cc\<close>. Machine words (\<^verbatim>\<open>UWd\<close>, \<^verbatim>\<open>Loc\<close>:
  \<^verbatim>\<open>unsigned short\<close>) are 16-bit words; array indices and C \<^verbatim>\<open>int\<close> loop counters are
  natural numbers. Every \<^verbatim>\<open>assert\<close> that fails and every array access outside its array is
  an error value. Loops whose trip count is read from the heap on every iteration, and the
  recursive traversals, take a fuel argument; running out of it is the third error value and
  stands for "did not finish within that many steps".

  The visualisation side array \<^verbatim>\<open>Mem::info\<close> and the image files written by \<^verbatim>\<open>Mem::snap\<close> are
  not part of the state: nothing reads them back. Accesses to \<^verbatim>\<open>info\<close> are kept as the bounds
  checks they need. The trace printed on standard output is the list \<open>trace\<close>.
\<close>

subsection \<open>Constants, words, errors\<close>

definition HeapSize :: nat where
  "HeapSize = 2000"

definition HeapSemiSize :: nat where
  "HeapSemiSize = 1000"

type_synonym UWd = "16 word"
type_synonym Loc = "16 word"

datatype error = AssertFail | OutOfBounds | OutOfFuel

definition bindr :: "error + 'a \<Rightarrow> ('a \<Rightarrow> error + 'b) \<Rightarrow> error + 'b" where
  "bindr m f = (case m of Inl e \<Rightarrow> Inl e | Inr x \<Rightarrow> f x)"

text \<open>The build-time selector: exactly one of the four macros is set.\<close>

datatype gc_mode = REF_COUNT_GC | MARK_SWEEP_GC | COPY_GC | MARK_COMPACT_GC

subsection \<open>Object headers\<close>

text \<open>
  \<^verbatim>\<open>struct { UWd ref_count : 8; UWd mark : 1; UWd type : 4; } header\<close> occupies one heap word.
  The bit-fields are laid out from the least significant bit (the layout of GCC and Clang on
  little-endian targets); the three remaining bits are never written.
\<close>

datatype Type = TNil | TForward | TFree | TNum | TTup | TVec | TStr | TInvalid

record header =
  ref_count :: "8 word"
  mark :: bool
  type_tag :: "4 word"
  unused_bits :: "3 word"

definition decode_header :: "UWd \<Rightarrow> header" where
  "decode_header w = \<lparr> ref_count = ucast w, mark = bit w 8,
     type_tag = ucast (drop_bit 9 w), unused_bits = ucast (drop_bit 13 w) \<rparr>"

definition encode_header :: "header \<Rightarrow> UWd" where
  "encode_header h = ucast (ref_count h) OR push_bit 8 (of_bool (mark h))
     OR push_bit 9 (ucast (type_tag h)) OR push_bit 13 (ucast (unused_bits h))"

definition Type_of_tag :: "4 word \<Rightarrow> Type" where
  "Type_of_tag t =
     (if t = 0 then TNil else if t = 1 then TForward else if t = 2 then TFree
      else if t = 3 then TNum else if t = 4 then TTup else if t = 5 then TVec
      else if t = 6 then TStr else TInvalid)"

fun tag_of_Type :: "Type \<Rightarrow> 4 word" where
  "tag_of_Type TNil = 0"
| "tag_of_Type TForward = 1"
| "tag_of_Type TFree = 2"
| "tag_of_Type TNum = 3"
| "tag_of_Type TTup = 4"
| "tag_of_Type TVec = 5"
| "tag_of_Type TStr = 6"
| "tag_of_Type TInvalid = 15"

fun TypeName :: "Type \<Rightarrow> string" where
  "TypeName TNil = '':nil ''"
| "TypeName TForward = '':* ''"
| "TypeName TFree = '':- ''"
| "TypeName TNum = '':n ''"
| "TypeName TTup = '':<> ''"
| "TypeName TVec = '':[] ''"
| "TypeName TStr = '':s ''"
| "TypeName TInvalid = []"

subsection \<open>The state and the trace\<close>

datatype event =
    Ev_alloc nat int
  | Ev_free nat int
  | Ev_init nat string
  | Ev_ref_count nat int
  | Ev_set_char nat int
  | Ev_set_int nat int
  | Ev_set_ref nat nat
  | Ev_copy nat nat int
  | Ev_bp string
  | Ev_roots "nat list"
  | Ev_live "nat list"

text \<open>
  \<open>root\<close> is the intrusive list of handles headed by \<^verbatim>\<open>ObjRef::root\<close>, newest first; a
  handle is the pair of its identity (the address of the \<^verbatim>\<open>ObjRef\<close>) and the location it
  holds.
\<close>

record mem =
  gc_mode :: gc_mode
  heap :: "nat \<Rightarrow> UWd"
  top_loc :: Loc
  forwarding :: "Loc \<rightharpoonup> Loc"
  live :: "Loc set"
  root :: "(nat \<times> Loc) list"
  log_ready :: bool
  trace :: "event list"

definition rd :: "mem \<Rightarrow> nat \<Rightarrow> error + UWd" where
  "rd s i = (if i < HeapSize then Inr (heap s i) else Inl OutOfBounds)"

definition wr :: "nat \<Rightarrow> UWd \<Rightarrow> mem \<Rightarrow> error + mem" where
  "wr i v s = (if i < HeapSize then Inr (s\<lparr>heap := (heap s)(i := v)\<rparr>) else Inl OutOfBounds)"

definition log_msg :: "event \<Rightarrow> mem \<Rightarrow> mem" where
  "log_msg e s = (if log_ready s then s\<lparr>trace := trace s @ [e]\<rparr> else s)"

text \<open>\<^verbatim>\<open>Mem::addr_to_loc\<close>: the index is truncated to a \<^verbatim>\<open>Loc\<close> before the assertion.\<close>

definition addr_to_loc :: "nat \<Rightarrow> error + nat" where
  "addr_to_loc i = (if i mod 65536 < HeapSize then Inr (i mod 65536) else Inl AssertFail)"

text \<open>The loops over \<^verbatim>\<open>Mem::info[loc + i]\<close>, \<open>i < size\<close>, stay inside the array.\<close>

definition info_range :: "nat \<Rightarrow> int \<Rightarrow> bool" where
  "info_range loc n = (n \<le> 0 \<or> int loc + n \<le> int HeapSize)"

definition log_alloc_mem :: "nat \<Rightarrow> int \<Rightarrow> mem \<Rightarrow> error + mem" where
  "log_alloc_mem loc n s =
     (if info_range loc n then Inr (log_msg (Ev_alloc loc n) s) else Inl OutOfBounds)"

definition log_free_mem :: "nat \<Rightarrow> int \<Rightarrow> mem \<Rightarrow> error + mem" where
  "log_free_mem loc n s =
     (if info_range loc n then Inr (log_msg (Ev_free loc n) s) else Inl OutOfBounds)"

definition log_init_obj :: "nat \<Rightarrow> Type \<Rightarrow> mem \<Rightarrow> error + mem" where
  "log_init_obj addr ty s =
     (if log_ready s
      then bindr (addr_to_loc addr) (\<lambda>loc. Inr (log_msg (Ev_init loc (TypeName ty)) s))
      else Inr s)"

definition log_ref_count :: "nat \<Rightarrow> int \<Rightarrow> mem \<Rightarrow> error + mem" where
  "log_ref_count loc n s =
     (if loc < HeapSize then Inr (log_msg (Ev_ref_count loc n) s) else Inl OutOfBounds)"

definition log_ref_count_addr :: "nat \<Rightarrow> int \<Rightarrow> mem \<Rightarrow> error + mem" where
  "log_ref_count_addr addr n s = bindr (addr_to_loc addr) (\<lambda>loc. log_ref_count loc n s)"

definition log_get_val :: "nat \<Rightarrow> mem \<Rightarrow> error + mem" where
  "log_get_val addr s = bindr (addr_to_loc addr) (\<lambda>loc. Inr s)"

definition log_set_val_char :: "nat \<Rightarrow> int \<Rightarrow> mem \<Rightarrow> error + mem" where
  "log_set_val_char addr v s =
     bindr (addr_to_loc addr) (\<lambda>loc. Inr (log_msg (Ev_set_char loc v) s))"

definition log_set_val :: "nat \<Rightarrow> int \<Rightarrow> mem \<Rightarrow> error + mem" where
  "log_set_val addr v s =
     bindr (addr_to_loc addr) (\<lambda>loc. Inr (log_msg (Ev_set_int loc v) s))"

definition log_set_ref :: "nat \<Rightarrow> Loc \<Rightarrow> mem \<Rightarrow> error + mem" where
  "log_set_ref addr v s =
     bindr (addr_to_loc addr) (\<lambda>loc. Inr (log_msg (Ev_set_ref loc (unat v)) s))"

definition log_copy_mem :: "nat \<Rightarrow> nat \<Rightarrow> int \<Rightarrow> mem \<Rightarrow> error + mem" where
  "log_copy_mem to from n s =
     (if info_range from n \<and> info_range to n
      then Inr (log_msg (Ev_copy to from n) s) else Inl OutOfBounds)"

definition log_copy_mem_addr :: "nat \<Rightarrow> nat \<Rightarrow> int \<Rightarrow> mem \<Rightarrow> error + mem" where
  "log_copy_mem_addr to from n s =
     bindr (addr_to_loc to) (\<lambda>t. bindr (addr_to_loc from) (\<lambda>f. log_copy_mem t f n s))"

subsection \<open>The bump allocator\<close>

definition Mem_reserve :: "UWd \<Rightarrow> mem \<Rightarrow> error + (Loc \<times> mem)" where
  "Mem_reserve n s =
     (let loc = top_loc s; s1 = s\<lparr>top_loc := top_loc s + n\<rparr>
      in if unat (top_loc s1) < HeapSize
         then bindr (log_alloc_mem (unat loc) (uint n) s1) (\<lambda>s2. Inr (loc, s2))
         else Inl AssertFail)"

definition Mem_reserve_with_possible_overlap :: "UWd \<Rightarrow> mem \<Rightarrow> error + (Loc \<times> mem)" where
  "Mem_reserve_with_possible_overlap n s =
     (let loc = top_loc s; s1 = s\<lparr>top_loc := top_loc s + n\<rparr>
      in if unat (top_loc s1) < HeapSize then Inr (loc, s1) else Inl AssertFail)"

text \<open>\<^verbatim>\<open>for (int i = 0; i < size; ++i) heap[loc + i] = 0;\<close> with \<open>k\<close> iterations left.\<close>

primrec zero_words :: "nat \<Rightarrow> nat \<Rightarrow> mem \<Rightarrow> error + mem" where
  "zero_words 0 i s = Inr s"
| "zero_words (Suc k) i s = bindr (wr i 0 s) (zero_words k (Suc i))"

definition Mem_alloc :: "UWd \<Rightarrow> mem \<Rightarrow> error + (Loc \<times> mem)" where
  "Mem_alloc n s =
     bindr (Mem_reserve n s) (\<lambda>(loc, s1).
     bindr (zero_words (unat n) (unat loc) s1) (\<lambda>s2. Inr (loc, s2)))"

text \<open>
  The state in which \<^verbatim>\<open>main\<close> starts working: the static heap is zero-initialised, the
  static handle \<^verbatim>\<open>ObjRef::nil\<close> has shared location 0 (which counts one reference under
  reference counting), \<^verbatim>\<open>Mem::top = 1\<close> and the trace has been opened by \<^verbatim>\<open>log_start\<close>.
\<close>

definition initial_mem :: "gc_mode \<Rightarrow> mem" where
  "initial_mem m = \<lparr> gc_mode = m,
     heap = (\<lambda>i. 0)(0 := (if m = REF_COUNT_GC then 1 else 0)),
     top_loc = 1, forwarding = Map.empty,
     live = {}, root = [(0, 0)], log_ready = True, trace = [] \<rparr>"

subsection \<open>Objects: header access and dispatch on the type tag\<close>

text \<open>An object is addressed by the index \<open>this\<close> of its header word (\<^verbatim>\<open>Obj::at(loc)\<close>).\<close>

definition Obj_header :: "mem \<Rightarrow> nat \<Rightarrow> error + header" where
  "Obj_header s this = bindr (rd s this) (\<lambda>w. Inr (decode_header w))"

definition Obj_type :: "mem \<Rightarrow> nat \<Rightarrow> error + Type" where
  "Obj_type s this = bindr (Obj_header s this) (\<lambda>h. Inr (Type_of_tag (type_tag h)))"

definition set_header :: "nat \<Rightarrow> header \<Rightarrow> mem \<Rightarrow> error + mem" where
  "set_header this h s = wr this (encode_header h) s"

definition init_ref_count :: "nat \<Rightarrow> mem \<Rightarrow> error + mem" where
  "init_ref_count this s =
     bindr (Obj_header s this) (\<lambda>h.
       if gc_mode s = REF_COUNT_GC
       then bindr (set_header this (h\<lparr>ref_count := 1\<rparr>) s) (log_ref_count_addr this 1)
       else set_header this (h\<lparr>ref_count := 0\<rparr>) s)"

definition inc_ref_count :: "nat \<Rightarrow> mem \<Rightarrow> error + mem" where
  "inc_ref_count this s =
     (if gc_mode s = REF_COUNT_GC
      then bindr (Obj_header s this) (\<lambda>h.
           bindr (set_header this (h\<lparr>ref_count := ref_count h + 1\<rparr>) s)
             (log_ref_count_addr this (uint (ref_count h + 1))))
      else Inr s)"

definition Obj_init :: "Type \<Rightarrow> nat \<Rightarrow> mem \<Rightarrow> error + mem" where
  "Obj_init ty this s =
     bindr (log_init_obj this ty s) (\<lambda>s1.
     bindr (Obj_header s1 this) (\<lambda>h.
     bindr (set_header this (h\<lparr>type_tag := tag_of_Type ty\<rparr>) s1) (\<lambda>s2.
     bindr (init_ref_count this s2) (\<lambda>s3.
     bindr (Obj_header s3 this) (\<lambda>h3.
     set_header this (h3\<lparr>mark := False\<rparr>) s3)))))"

text \<open>
  \<^verbatim>\<open>Obj::size\<close>. \<^verbatim>\<open>Tup::size_needed\<close> and \<^verbatim>\<open>Str::size_needed\<close> return \<^verbatim>\<open>2 + len\<close>
  truncated to a \<^verbatim>\<open>UWd\<close>; \<^verbatim>\<open>Vec::size\<close> reads \<^verbatim>\<open>len\<close> and returns 3.
\<close>

definition Obj_size :: "mem \<Rightarrow> nat \<Rightarrow> error + UWd" where
  "Obj_size s this =
     bindr (Obj_type s this) (\<lambda>ty. case ty of
         TNum \<Rightarrow> Inr 2
       | TTup \<Rightarrow> bindr (rd s (this + 1)) (\<lambda>len. Inr (2 + len))
       | TVec \<Rightarrow> bindr (rd s (this + 1)) (\<lambda>len. Inr 3)
       | TStr \<Rightarrow> bindr (rd s (this + 1)) (\<lambda>len. Inr (2 + len))
       | TFree \<Rightarrow> rd s (this + 1)
       | TForward \<Rightarrow> Inl AssertFail
       | _ \<Rightarrow> Inr 1)"

subsection \<open>Traversal\<close>

text \<open>
  \<^verbatim>\<open>Obj::traverse\<close>, \<^verbatim>\<open>Tup::traverse\<close> (the loop at index \<open>i\<close>) and \<^verbatim>\<open>Vec::traverse\<close>. The
  visit function is called on the state and may fail; the fields \<^verbatim>\<open>len\<close>, \<^verbatim>\<open>val[i]\<close> and
  \<^verbatim>\<open>tup\<close> are read again from the state it returns, as the C++ reads them through \<^verbatim>\<open>this\<close>.
  Every call and every loop iteration uses one unit of fuel.
\<close>

type_synonym VisitFn = "Loc \<Rightarrow> mem \<Rightarrow> error + mem"

fun traverse :: "nat \<Rightarrow> VisitFn \<Rightarrow> nat \<Rightarrow> mem \<Rightarrow> error + mem"
  and Tup_traverse :: "nat \<Rightarrow> VisitFn \<Rightarrow> nat \<Rightarrow> nat \<Rightarrow> mem \<Rightarrow> error + mem" where
  "traverse 0 f this s = Inl OutOfFuel"
| "traverse (Suc n) f this s =
     bindr (Obj_type s this) (\<lambda>ty. case ty of
         TTup \<Rightarrow> Tup_traverse n f this 0 s
       | TVec \<Rightarrow>
           bindr (log_get_val (this + 2) s) (\<lambda>s1.
           bindr (rd s1 (this + 2)) (\<lambda>tup.
           bindr (f tup s1) (\<lambda>s2.
           bindr (rd s2 (this + 2)) (\<lambda>tup'.
           Tup_traverse n f (unat tup') 0 s2))))
       | _ \<Rightarrow> Inr s)"
| "Tup_traverse 0 f this i s = Inl OutOfFuel"
| "Tup_traverse (Suc n) f this i s =
     bindr (rd s (this + 1)) (\<lambda>len.
       if i < unat len
       then bindr (log_get_val (this + 2 + i) s) (\<lambda>s1.
            bindr (rd s1 (this + 2 + i)) (\<lambda>v.
            bindr (f v s1) (\<lambda>s2.
            bindr (rd s2 (this + 2 + i)) (\<lambda>v'.
            bindr (traverse n f (unat v') s2) (\<lambda>s3.
            Tup_traverse n f this (Suc i) s3)))))
       else Inr s)"

subsection \<open>Freeing and reference counts\<close>

definition Mem_free :: "Loc \<Rightarrow> int \<Rightarrow> mem \<Rightarrow> error + mem" where
  "Mem_free loc n s =
     bindr (Obj_init TFree (unat loc) s) (\<lambda>s1.
     bindr (wr (unat loc + 1) (word_of_int n) s1) (\<lambda>s2.
     log_free_mem (unat loc) n s2))"

text \<open>
  \<^verbatim>\<open>Obj::dec_ref_count\<close>, \<^verbatim>\<open>Obj::cleanup\<close> with \<^verbatim>\<open>Tup::cleanup\<close> (the loop at index \<open>i\<close>) and
  \<^verbatim>\<open>Vec::cleanup\<close>, and \<^verbatim>\<open>ObjRef::unshare\<close> call each other; each call uses one unit of fuel.
\<close>

fun dec_ref_count :: "nat \<Rightarrow> nat \<Rightarrow> mem \<Rightarrow> error + (bool \<times> mem)"
  and cleanup :: "nat \<Rightarrow> nat \<Rightarrow> mem \<Rightarrow> error + mem"
  and Tup_cleanup :: "nat \<Rightarrow> nat \<Rightarrow> nat \<Rightarrow> mem \<Rightarrow> error + mem"
  and unshare :: "nat \<Rightarrow> Loc \<Rightarrow> mem \<Rightarrow> error + mem" where
  "dec_ref_count 0 this s = Inl OutOfFuel"
| "dec_ref_count (Suc n) this s =
     (if gc_mode s = REF_COUNT_GC
      then bindr (Obj_header s this) (\<lambda>h.
           bindr (set_header this (h\<lparr>ref_count := ref_count h - 1\<rparr>) s) (\<lambda>s1.
           bindr (log_ref_count_addr this (uint (ref_count h - 1)) s1) (\<lambda>s2.
           bindr (Obj_header s2 this) (\<lambda>h2.
             if ref_count h2 = 0
             then bindr (cleanup n this s2) (\<lambda>s3. Inr (True, s3))
             else Inr (False, s2)))))
      else Inr (False, s))"
| "cleanup 0 this s = Inl OutOfFuel"
| "cleanup (Suc n) this s =
     bindr (Obj_type s this) (\<lambda>ty. case ty of
         TTup \<Rightarrow> Tup_cleanup n this 0 s
       | TVec \<Rightarrow>
           bindr (rd s (this + 2)) (\<lambda>tup.
           bindr (unshare n tup s) (\<lambda>s1.
           wr (this + 2) 0 s1))
       | _ \<Rightarrow> Inr s)"
| "Tup_cleanup 0 this i s = Inl OutOfFuel"
| "Tup_cleanup (Suc n) this i s =
     bindr (rd s (this + 1)) (\<lambda>len.
       if i < unat len
       then bindr (rd s (this + 2 + i)) (\<lambda>v.
            bindr (unshare n v s) (\<lambda>s1.
            bindr (wr (this + 2 + i) 0 s1) (\<lambda>s2.
            Tup_cleanup n this (Suc i) s2)))
       else Inr s)"
| "unshare 0 loc s = Inl OutOfFuel"
| "unshare (Suc n) loc s =
     (if loc \<noteq> 0
      then bindr (dec_ref_count n (unat loc) s) (\<lambda>(z, s1).
             if z
             then bindr (Obj_size s1 (unat loc)) (\<lambda>sz. Mem_free loc (uint sz) s1)
             else Inr s1)
      else Inr s)"

subsection \<open>Copying and moving\<close>

text \<open>\<^verbatim>\<open>for (int i = 0; i < n; ++i) heap[to + i] = heap[from + i];\<close> with \<open>k\<close> iterations left.\<close>

primrec copy_words :: "nat \<Rightarrow> nat \<Rightarrow> nat \<Rightarrow> mem \<Rightarrow> error + mem" where
  "copy_words 0 to from s = Inr s"
| "copy_words (Suc k) to from s =
     bindr (rd s from) (\<lambda>v. bindr (wr to v s) (copy_words k (Suc to) (Suc from)))"

definition Mem_copy :: "Loc \<Rightarrow> UWd \<Rightarrow> mem \<Rightarrow> error + (Loc \<times> mem)" where
  "Mem_copy from new_size s =
     bindr (Obj_size s (unat from)) (\<lambda>sz.
       if new_size > 0
       then bindr (Mem_reserve new_size s) (\<lambda>(to, s1).
            let m = (if new_size < sz then new_size else sz) in
            bindr (copy_words (unat m) (unat to) (unat from) s1) (\<lambda>s2.
            bindr (zero_words (unat new_size - unat m) (unat to + unat m) s2) (\<lambda>s3.
            bindr (log_copy_mem (unat to) (unat from) (uint m) s3) (\<lambda>s4.
            Inr (to, s4)))))
       else bindr (Mem_reserve sz s) (\<lambda>(to, s1).
            bindr (copy_words (unat sz) (unat to) (unat from) s1) (\<lambda>s2.
            bindr (log_copy_mem (unat to) (unat from) (uint sz) s2) (\<lambda>s3.
            Inr (to, s3)))))"

definition Mem_move_without_forwarding :: "Loc \<Rightarrow> UWd \<Rightarrow> mem \<Rightarrow> error + (Loc \<times> mem)" where
  "Mem_move_without_forwarding from sz s =
     bindr (Mem_reserve_with_possible_overlap sz s) (\<lambda>(to, s1).
     bindr (copy_words (unat sz) (unat to) (unat from) s1) (\<lambda>s2.
     bindr (log_copy_mem (unat to) (unat from) (uint sz) s2) (\<lambda>s3.
     Inr (to, s3))))"

definition Mem_move :: "Loc \<Rightarrow> mem \<Rightarrow> error + (Loc \<times> mem)" where
  "Mem_move from s =
     bindr (Obj_size s (unat from)) (\<lambda>sz.
     bindr (Mem_reserve sz s) (\<lambda>(to, s1).
     bindr (copy_words (unat sz) (unat to) (unat from) s1) (\<lambda>s2.
     bindr (Obj_init TForward (unat from) s2) (\<lambda>s3.
     bindr (wr (unat from + 1) to s3) (\<lambda>s4.
     bindr (log_copy_mem (unat to) (unat from) (uint sz) s4) (\<lambda>s5.
     Inr (to, s5)))))))"

definition read_barrier :: "Loc \<Rightarrow> Loc" where
  "read_barrier loc = loc"

subsection \<open>Marking\<close>

definition mark_live_loc :: VisitFn where
  "mark_live_loc loc s =
     (if loc \<noteq> 0
      then bindr (if gc_mode s \<noteq> COPY_GC then log_ref_count (unat loc) 1 s else Inr s)
             (\<lambda>s1. Inr (s1\<lparr>live := insert loc (live s1)\<rparr>))
      else Inr s)"

text \<open>The walk \<^verbatim>\<open>while (p) { ...; p = p->next; }\<close> over the handles \<open>ps\<close> still to visit.\<close>

fun mark_live_roots :: "nat \<Rightarrow> (nat \<times> Loc) list \<Rightarrow> mem \<Rightarrow> error + mem" where
  "mark_live_roots n [] s = Inr s"
| "mark_live_roots n ((h, loc) # ps) s =
     bindr (mark_live_loc loc s) (\<lambda>s1.
     bindr (traverse n mark_live_loc (unat loc) s1) (\<lambda>s2.
     mark_live_roots n ps s2))"

definition mark_live :: "nat \<Rightarrow> mem \<Rightarrow> error + mem" where
  "mark_live n s = mark_live_roots n (root s) (s\<lparr>live := {}\<rparr>)"

subsection \<open>Mark-and-sweep\<close>

fun sweep_loop :: "nat \<Rightarrow> Loc \<Rightarrow> mem \<Rightarrow> error + mem" where
  "sweep_loop 0 loc s = Inl OutOfFuel"
| "sweep_loop (Suc n) loc s =
     (if loc < top_loc s
      then bindr (Obj_size s (unat loc)) (\<lambda>sz.
           bindr (if loc \<notin> live s then Mem_free loc (uint sz) s else Inr s) (\<lambda>s1.
           sweep_loop n (loc + sz) s1))
      else Inr s)"

definition sweep_garbage :: "nat \<Rightarrow> mem \<Rightarrow> error + mem" where
  "sweep_garbage n s = sweep_loop n 1 s"

subsection \<open>Semi-space copying\<close>

text \<open>The iteration over \<^verbatim>\<open>std::set<Loc> live\<close> is in ascending order.\<close>

fun move_all :: "Loc list \<Rightarrow> mem \<Rightarrow> error + mem" where
  "move_all [] s = Inr s"
| "move_all (from # ls) s =
     (if from \<noteq> 0
      then bindr (Mem_move from s) (\<lambda>(to, s1). move_all ls s1)
      else move_all ls s)"

definition move_live :: "nat \<Rightarrow> mem \<Rightarrow> error + mem" where
  "move_live n s =
     bindr (mark_live n s) (\<lambda>s1.
     let s2 = s1\<lparr>top_loc := (if unat (top_loc s1) \<ge> HeapSemiSize then 1 else of_nat HeapSemiSize)\<rparr>
     in move_all (sorted_list_of_set (live s2)) s2)"

subsection \<open>Mark-compact\<close>

fun compact_loop :: "nat \<Rightarrow> Loc \<Rightarrow> Loc \<Rightarrow> mem \<Rightarrow> error + mem" where
  "compact_loop 0 old_top from s = Inl OutOfFuel"
| "compact_loop (Suc n) old_top from s =
     (if from < old_top
      then bindr (Obj_size s (unat from)) (\<lambda>sz.
           bindr (if from \<in> live s
                  then (if old_top \<noteq> top_loc s
                        then bindr (Mem_move_without_forwarding from sz s) (\<lambda>(to, s1).
                               Inr (s1\<lparr>forwarding := (forwarding s1)(from \<mapsto> to)\<rparr>))
                        else Inr s)
                  else (if old_top = top_loc s then Inr (s\<lparr>top_loc := from\<rparr>) else Inr s))
             (\<lambda>s1. compact_loop n old_top (from + sz) s1))
      else Inr s)"

definition compact_live :: "nat \<Rightarrow> mem \<Rightarrow> error + mem" where
  "compact_live n s =
     bindr (mark_live n (s\<lparr>forwarding := Map.empty\<rparr>)) (\<lambda>s1.
     compact_loop n (top_loc s1) 1 s1)"

subsection \<open>Fixing up references\<close>

definition loc_after_move :: "Loc \<Rightarrow> mem \<Rightarrow> error + Loc" where
  "loc_after_move loc s =
     (if gc_mode s = COPY_GC
      then bindr (Obj_type s (unat loc)) (\<lambda>ty.
             if ty = TForward then rd s (unat loc + 1) else Inr loc)
      else (case forwarding s loc of Some l \<Rightarrow> Inr l | None \<Rightarrow> Inr loc))"

text \<open>
  \<^verbatim>\<open>Tup::fixup_references\<close>: the body writes \<^verbatim>\<open>val[i]\<close> only, so the bound \<^verbatim>\<open>len\<close> is the
  one read on entry; \<open>k\<close> iterations are left.
\<close>

primrec Tup_fixup_loop :: "nat \<Rightarrow> nat \<Rightarrow> nat \<Rightarrow> mem \<Rightarrow> error + mem" where
  "Tup_fixup_loop 0 this i s = Inr s"
| "Tup_fixup_loop (Suc k) this i s =
     bindr (rd s (this + 2 + i)) (\<lambda>v.
     bindr (loc_after_move v s) (\<lambda>v'.
     bindr (wr (this + 2 + i) v' s) (Tup_fixup_loop k this (Suc i))))"

definition Obj_fixup_references :: "nat \<Rightarrow> mem \<Rightarrow> error + mem" where
  "Obj_fixup_references this s =
     bindr (Obj_type s this) (\<lambda>ty. case ty of
         TTup \<Rightarrow> bindr (rd s (this + 1)) (\<lambda>len. Tup_fixup_loop (unat len) this 0 s)
       | TVec \<Rightarrow>
           bindr (rd s (this + 2)) (\<lambda>tup.
           bindr (loc_after_move tup s) (\<lambda>tup'.
           wr (this + 2) tup' s))
       | _ \<Rightarrow> Inr s)"

fun fixup_handles :: "(nat \<times> Loc) list \<Rightarrow> mem \<Rightarrow> error + (nat \<times> Loc) list" where
  "fixup_handles [] s = Inr []"
| "fixup_handles ((h, loc) # ps) s =
     bindr (loc_after_move loc s) (\<lambda>loc'.
     bindr (fixup_handles ps s) (\<lambda>ps'. Inr ((h, loc') # ps')))"

fun fixup_loop :: "nat \<Rightarrow> Loc \<Rightarrow> mem \<Rightarrow> error + mem" where
  "fixup_loop 0 loc s = Inl OutOfFuel"
| "fixup_loop (Suc n) loc s =
     (if loc < top_loc s
      then bindr (Obj_size s (unat loc)) (\<lambda>sz.
           bindr (Obj_fixup_references (unat loc) s) (\<lambda>s1.
           fixup_loop n (loc + sz) s1))
      else Inr s)"

definition fixup_references :: "nat \<Rightarrow> mem \<Rightarrow> error + mem" where
  "fixup_references n s =
     bindr (fixup_handles (root s) s) (\<lambda>ps.
     let s1 = s\<lparr>root := ps\<rparr>;
         loc = (if gc_mode s1 = COPY_GC
                then (if unat (top_loc s1) \<ge> HeapSemiSize then of_nat HeapSemiSize else 1)
                else 1)
     in fixup_loop n loc s1)"

subsection \<open>The collector\<close>

definition gc :: "nat \<Rightarrow> mem \<Rightarrow> error + mem" where
  "gc n s = (case gc_mode s of
       MARK_SWEEP_GC \<Rightarrow> bindr (mark_live n s) (sweep_garbage n)
     | COPY_GC \<Rightarrow>
         bindr (move_live n s) (\<lambda>s1.
         bindr (fixup_references n s1) (\<lambda>s2.
           if unat (top_loc s2) \<ge> HeapSemiSize
           then log_free_mem 1 (int HeapSemiSize - 1) s2
           else log_free_mem HeapSemiSize (int HeapSemiSize) s2))
     | MARK_COMPACT_GC \<Rightarrow>
         (let old_top = top_loc s in
          bindr (compact_live n s) (\<lambda>s1.
            if old_top > top_loc s1
            then bindr (fixup_references n s1) (\<lambda>s2.
                 log_free_mem (unat (top_loc s2)) (uint old_top - uint (top_loc s2)) s2)
            else Inr s1))
     | REF_COUNT_GC \<Rightarrow> Inr s)"

subsection \<open>Handles\<close>

definition add_to_root_set :: "nat \<Rightarrow> Loc \<Rightarrow> mem \<Rightarrow> mem" where
  "add_to_root_set hid loc s = s\<lparr>root := (hid, loc) # root s\<rparr>"

text \<open>The three protected constructors \<^verbatim>\<open>ObjRef(ALLOC, size)\<close>, \<^verbatim>\<open>ObjRef(COPY, src, new_size)\<close>
  and \<^verbatim>\<open>ObjRef(SHARE, loc)\<close>; the copy constructor is the last one at \<^verbatim>\<open>that.loc\<close>.\<close>

definition ObjRef_ALLOC :: "nat \<Rightarrow> UWd \<Rightarrow> mem \<Rightarrow> error + mem" where
  "ObjRef_ALLOC hid n s =
     bindr (Mem_alloc n s) (\<lambda>(loc, s1).
     bindr (init_ref_count (unat loc) s1) (\<lambda>s2.
     Inr (add_to_root_set hid loc s2)))"

definition ObjRef_COPY :: "nat \<Rightarrow> Loc \<Rightarrow> UWd \<Rightarrow> mem \<Rightarrow> error + mem" where
  "ObjRef_COPY hid src new_size s =
     bindr (Mem_copy src new_size s) (\<lambda>(loc, s1).
     bindr (init_ref_count (unat loc) s1) (\<lambda>s2.
     Inr (add_to_root_set hid loc s2)))"

definition ObjRef_SHARE :: "nat \<Rightarrow> Loc \<Rightarrow> mem \<Rightarrow> error + mem" where
  "ObjRef_SHARE hid loc s =
     bindr (inc_ref_count (unat (read_barrier loc)) s) (\<lambda>s1.
     Inr (add_to_root_set hid (read_barrier loc) s1))"

text \<open>The location held by a handle. A handle identity that is not in the root list is a
  dangling \<^verbatim>\<open>ObjRef\<close>: using it is an out-of-bounds access.\<close>

definition ObjRef_loc :: "mem \<Rightarrow> nat \<Rightarrow> error + Loc" where
  "ObjRef_loc s hid = (case map_of (root s) hid of Some loc \<Rightarrow> Inr loc | None \<Rightarrow> Inl OutOfBounds)"

definition ObjRef_share :: "nat \<Rightarrow> mem \<Rightarrow> error + (Loc \<times> mem)" where
  "ObjRef_share hid s =
     bindr (ObjRef_loc s hid) (\<lambda>loc.
     bindr (inc_ref_count (unat (read_barrier loc)) s) (\<lambda>s1.
     Inr (read_barrier loc, s1)))"

text \<open>\<^verbatim>\<open>ObjRef::~ObjRef\<close>: unlink, then drop the reference.\<close>

definition ObjRef_destroy :: "nat \<Rightarrow> nat \<Rightarrow> mem \<Rightarrow> error + mem" where
  "ObjRef_destroy n hid s =
     bindr (ObjRef_loc s hid) (\<lambda>loc.
     let s1 = s\<lparr>root := filter (\<lambda>p. fst p \<noteq> hid) (root s)\<rparr> in
     bindr (dec_ref_count n (unat loc) s1) (\<lambda>(z, s2).
       if z
       then bindr (Obj_size s2 (unat loc)) (\<lambda>sz. Mem_free loc (uint sz) s2)
       else Inr s2))"

text \<open>The identity of a temporary handle: any that no handle in the root list has.\<close>

definition fresh_hid :: "mem \<Rightarrow> nat" where
  "fresh_hid s = Suc (fold max (map fst (root s)) 0)"

text \<open>
  A call that passes the handle \<open>that\<close> to an \<^verbatim>\<open>ObjRef\<close> parameter taken by value: the
  parameter is a new handle, copy-constructed from the argument before the body runs
  (\<^verbatim>\<open>ObjRef(const ObjRef &)\<close>: count up, logged, linked into the root list) and destroyed when
  the call returns (\<^verbatim>\<open>~ObjRef\<close>: unlinked, count down, the object freed at zero). The body
  gets the identity of the parameter.
\<close>

definition by_value :: "nat \<Rightarrow> nat \<Rightarrow> (nat \<Rightarrow> mem \<Rightarrow> error + mem) \<Rightarrow> mem \<Rightarrow> error + mem" where
  "by_value n that body s =
     (let param = fresh_hid s in
      bindr (ObjRef_loc s that) (\<lambda>loc.
      bindr (ObjRef_SHARE param loc s) (\<lambda>s1.
      bindr (body param s1) (\<lambda>s2.
      ObjRef_destroy n param s2))))"

subsection \<open>Num\<close>

definition Num_init :: "nat \<Rightarrow> 16 word \<Rightarrow> mem \<Rightarrow> error + mem" where
  "Num_init this v s =
     bindr (Obj_init TNum this s) (\<lambda>s1.
     bindr (wr (this + 1) v s1) (\<lambda>s2.
     log_set_val (this + 1) (sint v) s2))"

definition NumRef :: "nat \<Rightarrow> 16 word \<Rightarrow> mem \<Rightarrow> error + mem" where
  "NumRef hid v s =
     bindr (ObjRef_ALLOC hid 2 s) (\<lambda>s1.
     bindr (ObjRef_loc s1 hid) (\<lambda>loc.
     Num_init (unat loc) v s1))"

subsection \<open>Tup\<close>

lemma bindr_cong [fundef_cong]:
  "m = m' \<Longrightarrow> (\<And>x. m' = Inr x \<Longrightarrow> f x = f' x) \<Longrightarrow> bindr m f = bindr m' f'"
  by (cases m') (simp_all add: bindr_def)

text \<open>
  The loop of \<^verbatim>\<open>Tup::init\<close> that bumps the reference counts of the slots a shallow copy
  brought along. \<^verbatim>\<open>len\<close> is read on every iteration (an increment may hit any heap word).
\<close>

function Tup_init_loop :: "nat \<Rightarrow> nat \<Rightarrow> mem \<Rightarrow> error + mem" where
  "Tup_init_loop this i s =
     bindr (rd s (this + 1)) (\<lambda>len.
       if i < unat len
       then bindr (rd s (this + 2 + i)) (\<lambda>v.
            bindr (if v \<noteq> 0 then inc_ref_count (unat v) s else Inr s) (\<lambda>s1.
            Tup_init_loop this (Suc i) s1))
       else Inr s)"
  by pat_completeness auto
termination
proof (relation "measure (\<lambda>(this, i, s). 65536 - i)")
  fix this i :: nat and s :: mem and x :: UWd
  assume "i < unat x"
  moreover have "unat x < 65536" using unsigned_less [of x, where 'a=nat] by simp
  ultimately show "((this, Suc i, s1), (this, i, s)) \<in> measure (\<lambda>(this, i, s). 65536 - i)" for s1
    by simp
qed simp

definition Tup_init :: "nat \<Rightarrow> nat \<Rightarrow> mem \<Rightarrow> error + mem" where
  "Tup_init this n s =
     bindr (Obj_init TTup this s) (\<lambda>s1.
     bindr (wr (this + 1) (of_nat n) s1) (\<lambda>s2.
     bindr (rd s2 (this + 1)) (\<lambda>len.
     bindr (log_set_val (this + 1) (uint len) s2) (\<lambda>s3.
     Tup_init_loop this 0 s3))))"

definition Tup_size_needed :: "nat \<Rightarrow> UWd" where
  "Tup_size_needed n = of_nat (2 + n)"

text \<open>\<^verbatim>\<open>TupRef(int len)\<close> and \<^verbatim>\<open>TupRef(Loc src, int len)\<close>.\<close>

definition TupRef :: "nat \<Rightarrow> nat \<Rightarrow> mem \<Rightarrow> error + mem" where
  "TupRef hid n s =
     bindr (ObjRef_ALLOC hid (Tup_size_needed n) s) (\<lambda>s1.
     bindr (ObjRef_loc s1 hid) (\<lambda>loc.
     Tup_init (unat loc) n s1))"

definition TupRef_copy :: "nat \<Rightarrow> Loc \<Rightarrow> nat \<Rightarrow> mem \<Rightarrow> error + mem" where
  "TupRef_copy hid src n s =
     bindr (ObjRef_COPY hid src (Tup_size_needed n) s) (\<lambda>s1.
     bindr (ObjRef_loc s1 hid) (\<lambda>loc.
     Tup_init (unat loc) n s1))"

text \<open>
  \<^verbatim>\<open>&val[i]\<close> for an \<^verbatim>\<open>int\<close> index: \<^verbatim>\<open>assert(i < len)\<close> lets a negative index through, and
  the slot address is then below \<^verbatim>\<open>val\<close>; an address below the heap is out of bounds.
\<close>

definition Tup_slot :: "nat \<Rightarrow> int \<Rightarrow> error + nat" where
  "Tup_slot this i =
     (if 0 \<le> int this + 2 + i then Inr (nat (int this + 2 + i)) else Inl OutOfBounds)"

text \<open>
  \<^verbatim>\<open>Tup::set(int i, ObjRef obj)\<close>. \<open>Tup_set_body\<close> is the body, run with the identity of the
  parameter handle; \<open>Tup_set\<close> is the call, which passes the argument by value.
  \<^verbatim>\<open>TupRef::set(int i, ObjRef obj)\<close> takes its argument by value and passes it on by value.
\<close>

definition Tup_set_body :: "nat \<Rightarrow> nat \<Rightarrow> int \<Rightarrow> nat \<Rightarrow> mem \<Rightarrow> error + mem" where
  "Tup_set_body n this i obj s =
     bindr (rd s (this + 1)) (\<lambda>len.
       if i < uint len
       then bindr (ObjRef_share obj s) (\<lambda>(tmp, s1).
            bindr (Tup_slot this i) (\<lambda>a.
            bindr (rd s1 a) (\<lambda>old.
            bindr (unshare n old s1) (\<lambda>s2.
            bindr (wr a tmp s2) (\<lambda>s3.
            bindr (rd s3 a) (\<lambda>v.
            log_set_ref a v s3))))))
       else Inl AssertFail)"

definition Tup_set :: "nat \<Rightarrow> nat \<Rightarrow> int \<Rightarrow> nat \<Rightarrow> mem \<Rightarrow> error + mem" where
  "Tup_set n this i obj s = by_value n obj (Tup_set_body n this i) s"


subsection \<open>Vec\<close>

definition Vec_init :: "nat \<Rightarrow> Loc \<Rightarrow> mem \<Rightarrow> error + mem" where
  "Vec_init this tup s =
     bindr (Obj_init TVec this s) (\<lambda>s1.
     bindr (wr (this + 1) 0 s1) (\<lambda>s2.
     bindr (wr (this + 2) tup s2) (\<lambda>s3.
     bindr (log_set_val (this + 1) 0 s3) (\<lambda>s4.
     log_set_ref (this + 2) tup s4))))"

text \<open>\<^verbatim>\<open>VecRef(int size)\<close>: the backing Tup is built through a temporary \<^verbatim>\<open>TupRef\<close>, shared,
  and the temporary is destroyed at the end of the full expression.\<close>

definition VecRef :: "nat \<Rightarrow> nat \<Rightarrow> nat \<Rightarrow> mem \<Rightarrow> error + mem" where
  "VecRef n hid capacity s =
     bindr (ObjRef_ALLOC hid 3 s) (\<lambda>s1.
     let tmp = fresh_hid s1 in
     bindr (TupRef tmp capacity s1) (\<lambda>s2.
     bindr (ObjRef_share tmp s2) (\<lambda>(tup, s3).
     bindr (ObjRef_destroy n tmp s3) (\<lambda>s4.
     bindr (ObjRef_loc s4 hid) (\<lambda>loc.
     Vec_init (unat loc) tup s4)))))"



text \<open>
  \<^verbatim>\<open>VecRef::push(ObjRef obj)\<close>. The comment line it prints first (\<^verbatim>\<open>// push ...\<close>) is not a
  trace event and is left out. \<open>VecRef_push_grow\<close> is the body of
  \<^verbatim>\<open>if (tup->len == vec->len)\<close>; it returns the reacquired \<^verbatim>\<open>vec\<close> and \<^verbatim>\<open>tup\<close> pointers.
  \<open>VecRef_push_body\<close> is the body of \<^verbatim>\<open>push\<close>, run with the identity of the parameter
  handle, which \<^verbatim>\<open>tup->set(vec->len, obj)\<close> passes on by value; \<open>VecRef_push\<close> is the call.
\<close>

definition VecRef_push_grow :: "nat \<Rightarrow> nat \<Rightarrow> Loc \<Rightarrow> UWd \<Rightarrow> mem \<Rightarrow> error + (nat \<times> nat \<times> mem)" where
  "VecRef_push_grow n hid tup vlen s =
     (let tmp = fresh_hid s in
      bindr (TupRef_copy tmp tup (2 * unat vlen) s) (\<lambda>s1.
      bindr (ObjRef_share tmp s1) (\<lambda>(new_tup, s2).
      bindr (ObjRef_destroy n tmp s2) (\<lambda>s3.
      bindr (ObjRef_loc s3 hid) (\<lambda>vloc.
      bindr (rd s3 (unat vloc + 2)) (\<lambda>old.
      bindr (unshare n old s3) (\<lambda>s4.
      bindr (wr (unat vloc + 2) new_tup s4) (\<lambda>s5.
      bindr (rd s5 (unat vloc + 2)) (\<lambda>t.
      bindr (log_set_ref (unat vloc + 2) t s5) (\<lambda>s6.
      Inr (unat vloc, unat t, s6)))))))))))"

definition VecRef_push_body :: "nat \<Rightarrow> nat \<Rightarrow> nat \<Rightarrow> mem \<Rightarrow> error + mem" where
  "VecRef_push_body n hid obj s =
     bindr (ObjRef_loc s hid) (\<lambda>vloc.
     bindr (rd s (unat vloc + 2)) (\<lambda>tup.
     bindr (rd s (unat tup + 1)) (\<lambda>tlen.
     bindr (rd s (unat vloc + 1)) (\<lambda>vlen.
     bindr (if tlen = vlen then VecRef_push_grow n hid tup vlen s
            else Inr (unat vloc, unat tup, s)) (\<lambda>(vec, tup', s7).
     bindr (rd s7 (vec + 1)) (\<lambda>vlen'.
     bindr (Tup_set n tup' (uint vlen') obj s7) (\<lambda>s8.
     bindr (rd s8 (vec + 1)) (\<lambda>l.
     bindr (wr (vec + 1) (l + 1) s8) (\<lambda>s9.
     bindr (rd s9 (vec + 1)) (\<lambda>l'.
     log_set_val (vec + 1) (uint l') s9))))))))))"

definition VecRef_push :: "nat \<Rightarrow> nat \<Rightarrow> nat \<Rightarrow> mem \<Rightarrow> error + mem" where
  "VecRef_push n hid obj s = by_value n obj (VecRef_push_body n hid) s"

subsection \<open>Str\<close>

definition Str_size_needed :: "nat \<Rightarrow> UWd" where
  "Str_size_needed n = of_nat (2 + n)"

text \<open>\<^verbatim>\<open>Str::init(int)\<close> and \<^verbatim>\<open>StrRef(int len)\<close>.\<close>

definition Str_init_len :: "nat \<Rightarrow> nat \<Rightarrow> mem \<Rightarrow> error + mem" where
  "Str_init_len this n s =
     bindr (Obj_init TStr this s) (\<lambda>s1.
     bindr (wr (this + 1) (of_nat n) s1) (\<lambda>s2.
     bindr (rd s2 (this + 1)) (\<lambda>len.
     log_set_val (this + 1) (uint len) s2)))"

definition StrRef_len :: "nat \<Rightarrow> nat \<Rightarrow> mem \<Rightarrow> error + mem" where
  "StrRef_len hid n s =
     bindr (ObjRef_ALLOC hid (Str_size_needed n) s) (\<lambda>s1.
     bindr (ObjRef_loc s1 hid) (\<lambda>loc.
     Str_init_len (unat loc) n s1))"

text \<open>
  \<^verbatim>\<open>Str::split(sep, begin, end)\<close>. The two index buffers are caller-owned \<^verbatim>\<open>int\<close> arrays,
  modelled as lists of their allocated length; a write past the end is out of bounds. \<open>sep\<close>
  is the value of the \<^verbatim>\<open>char\<close> after integer promotion. The loop does not write the heap, so
  its bound \<^verbatim>\<open>len\<close> is the one read on entry; \<open>k\<close> iterations are left.
\<close>

definition arr_set :: "int list \<Rightarrow> nat \<Rightarrow> int \<Rightarrow> error + int list" where
  "arr_set a i v = (if i < length a then Inr (a[i := v]) else Inl OutOfBounds)"

primrec Str_split_loop ::
  "nat \<Rightarrow> nat \<Rightarrow> nat \<Rightarrow> int \<Rightarrow> nat \<times> int \<times> int list \<times> int list \<Rightarrow> mem
     \<Rightarrow> error + (nat \<times> int \<times> int list \<times> int list)" where
  "Str_split_loop 0 i this sep st s = Inr st"
| "Str_split_loop (Suc k) i this sep st s =
     (case st of (found, last', b, e) \<Rightarrow>
        bindr (log_get_val (this + 2 + i) s) (\<lambda>s1.
        bindr (rd s1 (this + 2 + i)) (\<lambda>v.
          if uint v = sep
          then bindr (arr_set b found last') (\<lambda>b'.
               bindr (arr_set e found (int i)) (\<lambda>e'.
               Str_split_loop k (Suc i) this sep (Suc found, int i + 1, b', e') s1))
          else Str_split_loop k (Suc i) this sep st s1)))"

definition Str_split :: "nat \<Rightarrow> int \<Rightarrow> int list \<Rightarrow> int list \<Rightarrow> mem
    \<Rightarrow> error + (int \<times> int list \<times> int list)" where
  "Str_split this sep b e s =
     bindr (rd s (this + 1)) (\<lambda>len.
     bindr (Str_split_loop (unat len) 0 this sep (0, 0, b, e) s) (\<lambda>(found, last', b1, e1).
     bindr (arr_set b1 found last') (\<lambda>b2.
     bindr (arr_set e1 found (uint len)) (\<lambda>e2.
     Inr (int found + 1, b2, e2)))))"

text \<open>
  The call \<^verbatim>\<open>cast_Str()->split(sep, begin, end)\<close> in \<^verbatim>\<open>StrRef::split\<close>, with its two
  uninitialised buffers \<^verbatim>\<open>int begin[5]; int end[5];\<close> holding whatever \<open>junk\<close> says.
\<close>

definition StrRef_split_call :: "nat \<Rightarrow> int \<Rightarrow> (nat \<Rightarrow> int) \<Rightarrow> mem
    \<Rightarrow> error + (int \<times> int list \<times> int list)" where
  "StrRef_split_call hid sep junk s =
     bindr (ObjRef_loc s hid) (\<lambda>loc.
     Str_split (unat loc) sep (map junk [0..<5]) (map junk [5..<10]) s)"

text \<open>The characters of the Str at \<open>this\<close>, and the positions that hold the separator.\<close>

definition Str_chars :: "mem \<Rightarrow> nat \<Rightarrow> UWd list" where
  "Str_chars s this = map (\<lambda>i. heap s (this + 2 + i)) [0..<unat (heap s (this + 1))]"

definition sep_positions :: "int \<Rightarrow> UWd list \<Rightarrow> nat list" where
  "sep_positions sep cs = filter (\<lambda>i. uint (cs ! i) = sep) [0..<length cs]"

text \<open>The separator positions among the characters \<open>i, \<dots>, i + k - 1\<close> of the Str at \<open>this\<close>.\<close>

definition seps_between :: "mem \<Rightarrow> nat \<Rightarrow> int \<Rightarrow> nat \<Rightarrow> nat \<Rightarrow> nat list" where
  "seps_between s this sep i k = filter (\<lambda>j. uint (heap s (this + 2 + j)) = sep) [i..<i + k]"

subsection \<open>Heap ranges\<close>

text \<open>The heap with the \<open>k\<close> words from index \<open>i\<close> set to zero.\<close>

definition zero_range :: "(nat \<Rightarrow> UWd) \<Rightarrow> nat \<Rightarrow> nat \<Rightarrow> nat \<Rightarrow> UWd" where
  "zero_range h i k = (\<lambda>j. if i \<le> j \<and> j < i + k then 0 else h j)"

subsection \<open>Sequences of allocations\<close>

text \<open>Successive calls of \<^verbatim>\<open>Mem::alloc\<close> with the sizes \<open>ns\<close>.\<close>

fun alloc_seq :: "UWd list \<Rightarrow> mem \<Rightarrow> error + mem" where
  "alloc_seq [] s = Inr s"
| "alloc_seq (n # ns) s = bindr (Mem_alloc n s) (\<lambda>(loc, s1). alloc_seq ns s1)"

text \<open>An example state: the Str \<^verbatim>\<open>"a,b"\<close> at location 1, held by handle 1.\<close>

definition split_example :: mem where
  "split_example = \<lparr> gc_mode = MARK_SWEEP_GC,
     heap = (\<lambda>i. 0)(1 := 3072, 2 := 3, 3 := 97, 4 := 44, 5 := 98),
     top_loc = 6, forwarding = Map.empty, live = {}, root = [(1, 1), (0, 0)],
     log_ready = True, trace = [] \<rparr>"

subsection \<open>Reading the trace\<close>

fun is_free_ev :: "event \<Rightarrow> bool" where
  "is_free_ev (Ev_free loc n) = True"
| "is_free_ev e = False"

text \<open>
  A step that keeps the build mode and the trace switch, does not lower \<open>top\<close>, and adds
  no \<^verbatim>\<open>free\<close> event to the trace.
\<close>

definition quiet_step :: "mem \<Rightarrow> mem \<Rightarrow> bool" where
  "quiet_step s s' \<longleftrightarrow>
     gc_mode s' = gc_mode s \<and> log_ready s' = log_ready s \<and>
     unat (top_loc s) \<le> unat (top_loc s') \<and>
     (\<exists>evs. trace s' = trace s @ evs \<and> filter is_free_ev evs = [])"

text \<open>The state after the first collection from the initial state, in copying mode.\<close>

definition gc_copy_initial_result :: mem where
  "gc_copy_initial_result = (initial_mem COPY_GC)\<lparr>top_loc := 1000, trace := [Ev_free 1 999]\<rparr>"

subsection \<open>The value a location stands for\<close>

text \<open>
  The value structure reachable from a location, for comparing heaps: a Num by its numeric
  value, a Str by its characters, a Tup by the values of its slots and a Vec by the values of
  the first \<^verbatim>\<open>len\<close> slots of its backing Tup. The other cell types are not values and are
  kept apart. Every level of nesting uses one unit of fuel.
\<close>

datatype val =
    Nil_val
  | Num_val int
  | Str_val "UWd list"
  | Tup_val "val list"
  | Vec_val "val list"
  | Forward_val Loc
  | Free_val
  | Invalid_val

fun value_of :: "nat \<Rightarrow> mem \<Rightarrow> nat \<Rightarrow> error + val"
  and values_of :: "nat \<Rightarrow> mem \<Rightarrow> nat \<Rightarrow> nat \<Rightarrow> error + val list" where
  "value_of 0 s this = Inl OutOfFuel"
| "value_of (Suc n) s this =
     bindr (Obj_type s this) (\<lambda>ty. case ty of
         TNil \<Rightarrow> Inr Nil_val
       | TNum \<Rightarrow> bindr (rd s (this + 1)) (\<lambda>v. Inr (Num_val (sint v)))
       | TStr \<Rightarrow>
           bindr (rd s (this + 1)) (\<lambda>len.
             if this + 2 + unat len \<le> HeapSize then Inr (Str_val (Str_chars s this))
             else Inl OutOfBounds)
       | TTup \<Rightarrow>
           bindr (rd s (this + 1)) (\<lambda>len.
           bindr (values_of n s (this + 2) (unat len)) (\<lambda>vs. Inr (Tup_val vs)))
       | TVec \<Rightarrow>
           bindr (rd s (this + 1)) (\<lambda>len.
           bindr (rd s (this + 2)) (\<lambda>tup.
           bindr (values_of n s (unat tup + 2) (unat len)) (\<lambda>vs. Inr (Vec_val vs))))
       | TForward \<Rightarrow> bindr (rd s (this + 1)) (\<lambda>to. Inr (Forward_val to))
       | TFree \<Rightarrow> Inr Free_val
       | TInvalid \<Rightarrow> Inr Invalid_val)"
| "values_of 0 s base k = Inl OutOfFuel"
| "values_of (Suc n) s base 0 = Inr []"
| "values_of (Suc n) s base (Suc k) =
     bindr (rd s base) (\<lambda>v.
     bindr (value_of n s (unat v)) (\<lambda>x.
     bindr (values_of n s (Suc base) k) (\<lambda>xs. Inr (x # xs))))"

subsection \<open>A Str that fills the lower region\<close>

text \<open>
  In copying mode, from the initial state: \<^verbatim>\<open>StrRef s(997);\<close> allocates 999 words at
  location 1, so \<open>top\<close> becomes 1000. \<open>Str997_allocated\<close> is the state after the
  constructor, \<open>Str997_collected\<close> the state after \<^verbatim>\<open>Mem::gc()\<close> in it.
\<close>

definition Str997_allocated :: mem where
  "Str997_allocated = \<lparr> gc_mode = COPY_GC, heap = (\<lambda>i. 0)(1 := 3072, 2 := 997), top_loc = 1000,
     forwarding = Map.empty, live = {}, root = [(1, 1), (0, 0)], log_ready = True,
     trace = [Ev_alloc 1 999, Ev_init 1 '':s '', Ev_set_int 2 997] \<rparr>"

definition Str997_collected :: mem where
  "Str997_collected = \<lparr> gc_mode = COPY_GC, heap = (\<lambda>i. 0)(1 := 512, 2 := 1), top_loc = 1000,
     forwarding = Map.empty, live = {1}, root = [(1, 1), (0, 0)], log_ready = True,
     trace = [Ev_alloc 1 999, Ev_init 1 '':s '', Ev_set_int 2 997,
              Ev_alloc 1 999, Ev_init 1 '':* '', Ev_copy 1 1 999, Ev_free 1 999] \<rparr>"

text \<open>The header word at \<open>this\<close> rewritten by \<open>f\<close>, and the header \<^verbatim>\<open>Obj::init\<close> leaves.\<close>

definition hdr_upd :: "(header \<Rightarrow> header) \<Rightarrow> nat \<Rightarrow> (nat \<Rightarrow> UWd) \<Rightarrow> nat \<Rightarrow> UWd" where
  "hdr_upd f this h = h(this := encode_header (f (decode_header (h this))))"

definition init_header :: "gc_mode \<Rightarrow> Type \<Rightarrow> header \<Rightarrow> header" where
  "init_header m ty h = h\<lparr>type_tag := tag_of_Type ty,
      ref_count := (if m = REF_COUNT_GC then 1 else 0), mark := False\<rparr>"

text \<open>The heap after the ascending copy of \<open>k\<close> words from index \<open>from\<close> to index \<open>to\<close>,
  when no source word is overwritten before it is read.\<close>

definition copy_down :: "(nat \<Rightarrow> UWd) \<Rightarrow> nat \<Rightarrow> nat \<Rightarrow> nat \<Rightarrow> nat \<Rightarrow> UWd" where
  "copy_down h to from k = (\<lambda>j. if to \<le> j \<and> j < to + k then h (from + (j - to)) else h j)"

subsection \<open>A slot assigned to itself\<close>


text \<open>The state with the events \<open>evs\<close> logged in turn.\<close>

definition logged :: "event list \<Rightarrow> mem \<Rightarrow> mem" where
  "logged evs s = fold log_msg evs s"

subsection \<open>The order of visits\<close>

text \<open>
  The locations a traversal hands to its visit function, in order, read off a fixed heap \<open>h\<close>
  as the specification words it: a Tup visits each of its slots, and after each slot what the
  object in that slot visits; a Vec visits its backing Tup and then what that Tup visits; the
  other types visit nothing. The result is \<open>None\<close> when the fuel runs out or a read leaves the
  heap. This is the specification's description, to be compared with \<open>traverse\<close>.
\<close>

fun visited :: "nat \<Rightarrow> (nat \<Rightarrow> UWd) \<Rightarrow> nat \<Rightarrow> Loc list option"
  and Tup_visited :: "nat \<Rightarrow> (nat \<Rightarrow> UWd) \<Rightarrow> nat \<Rightarrow> nat \<Rightarrow> Loc list option" where
  "visited 0 h this = None"
| "visited (Suc n) h this =
     (if this < HeapSize
      then (case Type_of_tag (type_tag (decode_header (h this))) of
          TTup \<Rightarrow> Tup_visited n h this 0
        | TVec \<Rightarrow>
            (if this + 2 < HeapSize
             then (case Tup_visited n h (unat (h (this + 2))) 0 of
                 None \<Rightarrow> None
               | Some ws \<Rightarrow> Some (h (this + 2) # ws))
             else None)
        | _ \<Rightarrow> Some [])
      else None)"
| "Tup_visited 0 h this i = None"
| "Tup_visited (Suc n) h this i =
     (if this + 1 < HeapSize
      then (if i < unat (h (this + 1))
        then (if this + 2 + i < HeapSize
          then (case visited n h (unat (h (this + 2 + i))) of
              None \<Rightarrow> None
            | Some vs \<Rightarrow>
                (case Tup_visited n h this (Suc i) of
                   None \<Rightarrow> None
                 | Some ws \<Rightarrow> Some (h (this + 2 + i) # vs @ ws)))
          else None)
        else Some [])
      else None)"

text \<open>Calling the visit function on each location of a list in turn.\<close>

fun visit_all :: "VisitFn \<Rightarrow> Loc list \<Rightarrow> mem \<Rightarrow> error + mem" where
  "visit_all f [] s = Inr s"
| "visit_all f (l # ls) s = bindr (f l s) (visit_all f ls)"

text \<open>
  Under mark-and-sweep: a Tup of length 2 at location 1, both of whose slots hold the Num at
  location 5.
\<close>

definition twice_state :: mem where
  "twice_state = \<lparr> gc_mode = MARK_SWEEP_GC,
     heap = (\<lambda>i. 0)(1 := 2048, 2 := 2, 3 := 5, 4 := 5, 5 := 1536, 6 := 7),
     top_loc = 7, forwarding = Map.empty, live = {}, root = [(1, 1), (0, 0)],
     log_ready = True, trace = [] \<rparr>"

subsection \<open>Pushing onto a Vec\<close>

text \<open>
  Under reference counting, from the initial state: \<open>empty_Vec_state\<close> is the state after
  \<^verbatim>\<open>VecRef v(0); NumRef x(7);\<close>, a Vec of length 0 at location 1 whose backing Tup at
  location 4 has capacity 0, and a Num at location 6. \<open>full_Vec_state\<close> is the state after
  \<^verbatim>\<open>VecRef v(1); NumRef x(7); v.push(x);\<close>, a Vec of length 1 whose backing Tup has
  capacity 1, and \<open>grown_Vec_state\<close> the state after one more \<^verbatim>\<open>v.push(x)\<close>.
\<close>

definition empty_Vec_state :: mem where
  "empty_Vec_state = \<lparr> gc_mode = REF_COUNT_GC,
     heap = (\<lambda>i. 0)(0 := 1, 1 := 2561, 3 := 4, 4 := 2049, 6 := 1537, 7 := 7),
     top_loc = 8, forwarding = Map.empty, live = {}, root = [(2, 6), (1, 1), (0, 0)],
     log_ready = True,
     trace = [Ev_alloc 1 3, Ev_ref_count 1 1, Ev_alloc 4 2, Ev_ref_count 4 1,
       Ev_init 4 '':<> '', Ev_ref_count 4 1, Ev_set_int 5 0,
       Ev_ref_count 4 2, Ev_ref_count 4 1, Ev_init 1 '':[] '',
       Ev_ref_count 1 1, Ev_set_int 2 0, Ev_set_ref 3 4, Ev_alloc 6 2,
       Ev_ref_count 6 1, Ev_init 6 '':n '', Ev_ref_count 6 1,
       Ev_set_int 7 7] \<rparr>"

definition full_Vec_trace :: "event list" where
  "full_Vec_trace = [Ev_alloc 1 3, Ev_ref_count 1 1, Ev_alloc 4 3, Ev_ref_count 4 1,
       Ev_init 4 '':<> '', Ev_ref_count 4 1, Ev_set_int 5 1,
       Ev_ref_count 4 2, Ev_ref_count 4 1, Ev_init 1 '':[] '',
       Ev_ref_count 1 1, Ev_set_int 2 0, Ev_set_ref 3 4, Ev_alloc 7 2,
       Ev_ref_count 7 1, Ev_init 7 '':n '', Ev_ref_count 7 1,
       Ev_set_int 8 7, Ev_ref_count 7 2, Ev_ref_count 7 3, Ev_ref_count 7 4,
       Ev_set_ref 6 7, Ev_ref_count 7 3, Ev_set_int 2 1, Ev_ref_count 7 2]"

definition full_Vec_state :: mem where
  "full_Vec_state = \<lparr> gc_mode = REF_COUNT_GC,
     heap = (\<lambda>i. 0)(0 := 1, 1 := 2561, 2 := 1, 3 := 4, 4 := 2049, 5 := 1, 6 := 7,
        7 := 1538, 8 := 7),
     top_loc = 9, forwarding = Map.empty, live = {}, root = [(2, 7), (1, 1), (0, 0)],
     log_ready = True, trace = full_Vec_trace \<rparr>"

definition grown_Vec_state :: mem where
  "grown_Vec_state = \<lparr> gc_mode = REF_COUNT_GC,
     heap = (\<lambda>i. 0)(0 := 1, 1 := 2561, 2 := 2, 3 := 9, 4 := 1025, 5 := 3,
        7 := 1539, 8 := 7, 9 := 2049, 10 := 2, 11 := 7, 12 := 7),
     top_loc = 13, forwarding = Map.empty, live = {}, root = [(2, 7), (1, 1), (0, 0)],
     log_ready = True,
     trace = full_Vec_trace @ [Ev_ref_count 7 3, Ev_alloc 9 4, Ev_copy 9 4 3,
       Ev_ref_count 9 1, Ev_init 9 '':<> '', Ev_ref_count 9 1, Ev_set_int 10 2,
       Ev_ref_count 7 4, Ev_ref_count 9 2, Ev_ref_count 9 1,
       Ev_ref_count 4 0, Ev_ref_count 7 3, Ev_init 4 '':- '',
       Ev_ref_count 4 1, Ev_free 4 3, Ev_set_ref 3 9, Ev_ref_count 7 4,
       Ev_ref_count 7 5, Ev_set_ref 12 7, Ev_ref_count 7 4, Ev_set_int 2 2,
       Ev_ref_count 7 3] \<rparr>"

subsection \<open>Collections in copying mode\<close>




text \<open>
  In copying mode, from the initial state: \<open>Str997_upper\<close> is the state after
  \<^verbatim>\<open>Mem::gc(); StrRef s(997);\<close>, where the Str takes the 999 words from location 1000 on, and
  \<open>Str997_lower\<close> the state after a collection in it, which moves the Str to location 1.
\<close>

definition Str997_upper :: mem where
  "Str997_upper = \<lparr> gc_mode = COPY_GC, heap = (\<lambda>i. 0)(1000 := 3072, 1001 := 997),
     top_loc = 1999, forwarding = Map.empty, live = {}, root = [(1, 1000), (0, 0)],
     log_ready = True,
     trace = [Ev_free 1 999, Ev_alloc 1000 999, Ev_init 1000 '':s '', Ev_set_int 1001 997] \<rparr>"

definition Str997_lower :: mem where
  "Str997_lower = \<lparr> gc_mode = COPY_GC,
     heap = (\<lambda>i. 0)(1 := 3072, 2 := 997, 1000 := 512, 1001 := 1),
     top_loc = 1000, forwarding = Map.empty, live = {1000}, root = [(1, 1), (0, 0)],
     log_ready = True,
     trace = [Ev_free 1 999, Ev_alloc 1000 999, Ev_init 1000 '':s '', Ev_set_int 1001 997,
              Ev_alloc 1 999, Ev_init 1000 '':* '', Ev_copy 1 1000 999, Ev_free 1 999] \<rparr>"

subsection \<open>The slide of a compaction\<close>

text \<open>
  \<open>cells s p zs e\<close>: from location \<open>p\<close> up to location \<open>e\<close> the heap is a sequence of cells
  of the sizes \<open>zs\<close>, as \<^verbatim>\<open>Obj::size\<close> reads them, none of them empty. For such a sequence
  and a set \<open>L\<close> of live locations, with \<open>t\<close> the location the next survivor goes to,
  \<open>slide\<close> lists every live cell with its old location, its new location and its size, in
  heap order, \<open>slide_top\<close> is the location after the last survivor, and \<open>slide_forwarding\<close>
  records the cells that change place.
\<close>

fun cells :: "mem \<Rightarrow> Loc \<Rightarrow> UWd list \<Rightarrow> Loc \<Rightarrow> bool" where
  "cells s p [] e = (p = e)"
| "cells s p (z # zs) e =
     (Obj_size s (unat p) = Inr z \<and> z \<noteq> 0 \<and> unat p + unat z \<le> unat e \<and> cells s (p + z) zs e)"

fun slide :: "Loc set \<Rightarrow> Loc \<Rightarrow> Loc \<Rightarrow> UWd list \<Rightarrow> (Loc \<times> Loc \<times> UWd) list" where
  "slide L p t [] = []"
| "slide L p t (z # zs) =
     (if p \<in> L then (p, t, z) # slide L (p + z) (t + z) zs else slide L (p + z) t zs)"

fun slide_top :: "Loc set \<Rightarrow> Loc \<Rightarrow> Loc \<Rightarrow> UWd list \<Rightarrow> Loc" where
  "slide_top L p t [] = t"
| "slide_top L p t (z # zs) =
     (if p \<in> L then slide_top L (p + z) (t + z) zs else slide_top L (p + z) t zs)"

fun slide_forwarding :: "(Loc \<times> Loc \<times> UWd) list \<Rightarrow> (Loc \<rightharpoonup> Loc) \<Rightarrow> (Loc \<rightharpoonup> Loc)" where
  "slide_forwarding [] m = m"
| "slide_forwarding ((q, u, z) # xs) m = slide_forwarding xs (if q \<noteq> u then m(q \<mapsto> u) else m)"

text \<open>
  Under mark-compact, from the initial state: the state after
  \<^verbatim>\<open>NumRef a(1); NumRef *b = new NumRef(2); NumRef c(3); delete b;\<close>, three Nums at the
  locations 1, 3 and 5, the second without a handle.
\<close>

definition three_Nums :: mem where
  "three_Nums = \<lparr> gc_mode = MARK_COMPACT_GC,
     heap = (\<lambda>i. 0)(1 := 1536, 2 := 1, 3 := 1536, 4 := 2, 5 := 1536, 6 := 3), top_loc = 7,
     forwarding = Map.empty, live = {}, root = [(3, 5), (1, 1), (0, 0)], log_ready = True,
     trace = [Ev_alloc 1 2, Ev_init 1 '':n '', Ev_set_int 2 1,
              Ev_alloc 3 2, Ev_init 3 '':n '', Ev_set_int 4 2,
              Ev_alloc 5 2, Ev_init 5 '':n '', Ev_set_int 6 3] \<rparr>"

section \<open>Verification\<close>

subsection \<open>Basic facts\<close>

lemma bindr_Inl [simp]: "bindr (Inl e) f = Inl e"
  by (simp add: bindr_def)

lemma bindr_Inr [simp]: "bindr (Inr x) f = f x"
  by (simp add: bindr_def)

lemma bindr_eq_Inr: "bindr m f = Inr y \<longleftrightarrow> (\<exists>x. m = Inr x \<and> f x = Inr y)"
  by (cases m) simp_all

lemma unat_less_65536: "unat (w :: 16 word) < 65536"
  using unsigned_less [of w, where 'a = nat] by simp

lemma addr_to_loc_ok: "i < HeapSize \<Longrightarrow> addr_to_loc i = Inr i"
  by (simp add: addr_to_loc_def HeapSize_def)

lemma log_get_val_ok: "i < HeapSize \<Longrightarrow> log_get_val i s = Inr s"
  by (simp add: log_get_val_def addr_to_loc_ok)

lemma rd_ok: "i < HeapSize \<Longrightarrow> rd s i = Inr (heap s i)"
  by (simp add: rd_def)

lemma unat_add16:
  "unat (a + b :: 16 word) =
     (if unat a + unat b < 65536 then unat a + unat b else unat a + unat b - 65536)"
  using unat_plus_if_size [of a b] by (simp add: word_size)

lemma unat_add_small:
  "unat (a :: 16 word) + unat (n :: 16 word) < 2000 \<Longrightarrow> unat (a + n) = unat a + unat n"
  by (subst unat_add16) simp

lemma unat_add_wrapped:
  "\<not> unat (a :: 16 word) + unat (n :: 16 word) < 2000 \<Longrightarrow> unat (a + n) < 2000
     \<Longrightarrow> unat a + unat n \<ge> 65536"
  by (subst (asm) unat_add16) (simp split: if_splits)

lemma info_range_wrapped:
  "unat (a :: 16 word) + unat (n :: 16 word) \<ge> 65536 \<Longrightarrow> \<not> info_range (unat a) (uint n)"
  using unat_less_65536 [of a]
  unfolding info_range_def uint_nat HeapSize_def by linarith

subsection \<open>The allocator's bound\<close>

lemma Mem_reserve_eq:
  "Mem_reserve n s =
     (if unat (top_loc s) + unat n < HeapSize
      then Inr (top_loc s,
                log_msg (Ev_alloc (unat (top_loc s)) (uint n)) (s\<lparr>top_loc := top_loc s + n\<rparr>))
      else Inl (if unat (top_loc s + n) < HeapSize then OutOfBounds else AssertFail))"
proof (cases "unat (top_loc s) + unat n < HeapSize")
  case True
  then have "unat (top_loc s + n) = unat (top_loc s) + unat n"
    unfolding HeapSize_def by (rule unat_add_small)
  moreover have "info_range (unat (top_loc s)) (uint n)"
    using True unfolding info_range_def uint_nat by linarith
  ultimately show ?thesis using True
    by (simp add: Mem_reserve_def Let_def log_alloc_mem_def)
next
  case False
  show ?thesis
  proof (cases "unat (top_loc s + n) < HeapSize")
    case lt: True
    have "unat (top_loc s) + unat n \<ge> 65536"
      using False lt unfolding HeapSize_def by (rule unat_add_wrapped)
    then have "\<not> info_range (unat (top_loc s)) (uint n)"
      by (rule info_range_wrapped)
    with False lt show ?thesis
      by (simp add: Mem_reserve_def Let_def log_alloc_mem_def)
  next
    case ge: False
    with False show ?thesis
      by (simp add: Mem_reserve_def Let_def)
  qed
qed

lemma zero_range_0 [simp]: "zero_range h i 0 = h"
  by (rule ext) (auto simp add: zero_range_def)

lemma zero_range_Suc:
  "zero_range (\<lambda>a. if a = i then 0 else h a) (Suc i) k = zero_range h i (Suc k)"
  by (rule ext) (auto simp add: zero_range_def)

lemma zero_words_ok:
  "i + k \<le> HeapSize \<Longrightarrow> zero_words k i s = Inr (s\<lparr>heap := zero_range (heap s) i k\<rparr>)"
proof (induction k arbitrary: i s)
  case 0
  then show ?case by simp
next
  case (Suc k)
  have "i < HeapSize" using Suc.prems by simp
  moreover have "Suc i + k \<le> HeapSize" using Suc.prems by simp
  ultimately show ?case
    by (simp add: wr_def Suc.IH zero_range_Suc)
qed

lemma log_msg_fields [simp]:
  "heap (log_msg e s) = heap s" "top_loc (log_msg e s) = top_loc s"
  "root (log_msg e s) = root s" "live (log_msg e s) = live s"
  "forwarding (log_msg e s) = forwarding s" "gc_mode (log_msg e s) = gc_mode s"
  "log_ready (log_msg e s) = log_ready s"
  by (simp_all add: log_msg_def)

lemma Mem_alloc_eq:
  "Mem_alloc n s =
     (if unat (top_loc s) + unat n < HeapSize
      then Inr (top_loc s,
                (log_msg (Ev_alloc (unat (top_loc s)) (uint n)) (s\<lparr>top_loc := top_loc s + n\<rparr>))
                \<lparr>heap := zero_range (heap s) (unat (top_loc s)) (unat n)\<rparr>)
      else Inl (if unat (top_loc s + n) < HeapSize then OutOfBounds else AssertFail))"
proof (cases "unat (top_loc s) + unat n < HeapSize")
  case True
  then have "unat (top_loc s) + unat n \<le> HeapSize" by simp
  then show ?thesis using True
    by (simp add: Mem_alloc_def Mem_reserve_eq zero_words_ok)
next
  case False
  then show ?thesis by (simp add: Mem_alloc_def Mem_reserve_eq)
qed

lemma alloc_seq_succeeds_iff:
  "(\<exists>s'. alloc_seq (n # ns) s = Inr s') \<longleftrightarrow>
     unat (top_loc s) + unat n + sum_list (map unat ns) < HeapSize"
proof (induction ns arbitrary: n s)
  case Nil
  show ?case by (simp add: Mem_alloc_eq)
next
  case (Cons m ms)
  show ?case
  proof (cases "unat (top_loc s) + unat n < HeapSize")
    case True
    define s1 where "s1 = (log_msg (Ev_alloc (unat (top_loc s)) (uint n))
        (s\<lparr>top_loc := top_loc s + n\<rparr>))\<lparr>heap := zero_range (heap s) (unat (top_loc s)) (unat n)\<rparr>"
    have "unat (top_loc s + n) = unat (top_loc s) + unat n"
      using True unfolding HeapSize_def by (rule unat_add_small)
    then have t: "unat (top_loc s1) = unat (top_loc s) + unat n"
      by (simp add: s1_def)
    have a: "Mem_alloc n s = Inr (top_loc s, s1)"
      using True by (simp add: Mem_alloc_eq s1_def)
    have "(\<exists>s'. alloc_seq (n # m # ms) s = Inr s') = (\<exists>s'. alloc_seq (m # ms) s1 = Inr s')"
      by (simp add: a)
    also have "\<dots> = (unat (top_loc s1) + unat m + sum_list (map unat ms) < HeapSize)"
      by (rule Cons.IH)
    also have "\<dots> = (unat (top_loc s) + unat n + sum_list (map unat (m # ms)) < HeapSize)"
      by (simp add: t add.assoc)
    finally show ?thesis .
  next
    case False
    then show ?thesis by (simp add: Mem_alloc_eq)
  qed
qed

text \<open>
  Claim C2, as the code has it, in the builds with a single region (reference counting,
  mark-and-sweep, mark-compact), where the active region is the whole heap.
  \<^verbatim>\<open>Mem::reserve(n)\<close> succeeds exactly when \<open>top + n\<close>, computed without wrap-around, stays
  strictly below \<^verbatim>\<open>HeapSize\<close>; it then returns the old \<open>top\<close>, advances \<open>top\<close> by \<open>n\<close>, logs
  the allocation and changes nothing else. A sequence of allocations succeeds exactly when
  its total keeps \<open>top\<close> strictly below \<^verbatim>\<open>HeapSize\<close>: the last word of the heap is never
  handed out. The copying build is left out: there the active region is a half of the heap,
  which \<^verbatim>\<open>Mem::reserve\<close> does not bound.
\<close>

theorem Mem_reserve_bound:
  assumes "gc_mode s \<noteq> COPY_GC"
  shows "(Mem_reserve n s = Inr (loc, s') \<longleftrightarrow>
      unat (top_loc s) + unat n < HeapSize \<and> loc = top_loc s \<and>
      unat (top_loc s') = unat (top_loc s) + unat n \<and>
      s' = log_msg (Ev_alloc (unat (top_loc s)) (uint n)) (s\<lparr>top_loc := top_loc s + n\<rparr>))
   \<and> ((\<exists>r. Mem_reserve n s = Inr r) \<longleftrightarrow> unat (top_loc s) + unat n < HeapSize)
   \<and> ((\<exists>r. alloc_seq (n # ns) s = Inr r) \<longleftrightarrow>
        unat (top_loc s) + unat n + sum_list (map unat ns) < HeapSize)"
proof -
  have "unat (top_loc s + n) = unat (top_loc s) + unat n"
    if "unat (top_loc s) + unat n < HeapSize"
    using that unfolding HeapSize_def by (rule unat_add_small)
  then have "Mem_reserve n s = Inr (loc, s') \<longleftrightarrow>
      unat (top_loc s) + unat n < HeapSize \<and> loc = top_loc s \<and>
      unat (top_loc s') = unat (top_loc s) + unat n \<and>
      s' = log_msg (Ev_alloc (unat (top_loc s)) (uint n)) (s\<lparr>top_loc := top_loc s + n\<rparr>)"
    by (auto simp add: Mem_reserve_eq)
  moreover have "(\<exists>r. Mem_reserve n s = Inr r) \<longleftrightarrow> unat (top_loc s) + unat n < HeapSize"
    by (simp add: Mem_reserve_eq)
  ultimately show ?thesis
    using alloc_seq_succeeds_iff [of n ns s] by blast
qed

text \<open>
  In the mark-and-sweep build, from the initial state (\<open>top = 1\<close>): a reservation of 1998
  words succeeds and brings \<open>top\<close> to 1999; no allocation of one more word follows it.
\<close>

theorem Mem_reserve_bound_witness:
  "gc_mode (initial_mem MARK_SWEEP_GC) \<noteq> COPY_GC \<and>
   Mem_reserve 1998 (initial_mem MARK_SWEEP_GC) =
     Inr (1, log_msg (Ev_alloc (unat (top_loc (initial_mem MARK_SWEEP_GC))) (uint (1998 :: UWd)))
               ((initial_mem MARK_SWEEP_GC)\<lparr>top_loc := top_loc (initial_mem MARK_SWEEP_GC) + 1998\<rparr>)) \<and>
   (\<exists>r. Mem_reserve 1998 (initial_mem MARK_SWEEP_GC) = Inr r) \<and>
   \<not> (\<exists>r. alloc_seq [1998, 1] (initial_mem MARK_SWEEP_GC) = Inr r)"
proof -
  have m: "gc_mode (initial_mem MARK_SWEEP_GC) \<noteq> COPY_GC" by (simp add: initial_mem_def)
  have t: "top_loc (initial_mem MARK_SWEEP_GC) = 1" by (simp add: initial_mem_def)
  have a: "unat (top_loc (initial_mem MARK_SWEEP_GC)) + unat (1998 :: UWd) < HeapSize"
    by (simp add: t HeapSize_def)
  have b: "unat (top_loc (log_msg (Ev_alloc (unat (top_loc (initial_mem MARK_SWEEP_GC)))
                (uint (1998 :: UWd)))
             ((initial_mem MARK_SWEEP_GC)\<lparr>top_loc := top_loc (initial_mem MARK_SWEEP_GC) + 1998\<rparr>)))
      = unat (top_loc (initial_mem MARK_SWEEP_GC)) + unat (1998 :: UWd)"
    by (simp add: t)
  have c: "\<not> unat (top_loc (initial_mem MARK_SWEEP_GC)) + unat (1998 :: UWd)
      + sum_list (map unat [1 :: UWd]) < HeapSize"
    by (simp add: t HeapSize_def)
  note th = Mem_reserve_bound [OF m, of 1998 1
      "log_msg (Ev_alloc (unat (top_loc (initial_mem MARK_SWEEP_GC))) (uint (1998 :: UWd)))
         ((initial_mem MARK_SWEEP_GC)\<lparr>top_loc := top_loc (initial_mem MARK_SWEEP_GC) + 1998\<rparr>)"
      "[1]"]
  from th a b t [symmetric] have "Mem_reserve 1998 (initial_mem MARK_SWEEP_GC) =
     Inr (1, log_msg (Ev_alloc (unat (top_loc (initial_mem MARK_SWEEP_GC))) (uint (1998 :: UWd)))
               ((initial_mem MARK_SWEEP_GC)\<lparr>top_loc := top_loc (initial_mem MARK_SWEEP_GC) + 1998\<rparr>))"
    by blast
  moreover from th a have "\<exists>r. Mem_reserve 1998 (initial_mem MARK_SWEEP_GC) = Inr r" by blast
  moreover from th c have "\<not> (\<exists>r. alloc_seq [1998, 1] (initial_mem MARK_SWEEP_GC) = Inr r)"
    by blast
  ultimately show ?thesis using m by (intro conjI)
qed

text \<open>
  The claim as stated fails: in the mark-and-sweep build, from the initial state (\<open>top = 1\<close>),
  a reservation of 1999 words would bring \<open>top\<close> exactly to \<^verbatim>\<open>HeapSize\<close>, and the assertion
  \<^verbatim>\<open>top < HeapSize\<close> fails.
\<close>

theorem Mem_reserve_up_to_HeapSize_fails:
  "unat (top_loc (initial_mem MARK_SWEEP_GC)) + unat (1999 :: UWd) = HeapSize
   \<and> Mem_reserve 1999 (initial_mem MARK_SWEEP_GC) = Inl AssertFail"
  by (simp add: Mem_reserve_eq initial_mem_def HeapSize_def)

subsection \<open>The index buffers of split\<close>

lemma seps_between_0: "seps_between s this sep i 0 = []"
  by (simp add: seps_between_def)

lemma seps_between_Suc:
  "seps_between s this sep i (Suc k) =
     (if uint (heap s (this + 2 + i)) = sep then [i] else []) @ seps_between s this sep (Suc i) k"
proof -
  have "[i..<Suc (i + k)] = i # [Suc i..<Suc (i + k)]"
    by (rule upt_conv_Cons) simp
  then show ?thesis
    by (simp add: seps_between_def del: upt_Suc)
qed

lemma Str_split_loop_ok:
  assumes "this + 2 + i + k \<le> HeapSize" "length e = length b"
    "found + length (seps_between s this sep i k) \<le> length b"
  shows "Str_split_loop k i this sep (found, lp, b, e) s =
     Inr (found + length (seps_between s this sep i k),
          last (lp # map (\<lambda>j. int j + 1) (seps_between s this sep i k)),
          take found b @ butlast (lp # map (\<lambda>j. int j + 1) (seps_between s this sep i k))
            @ drop (found + length (seps_between s this sep i k)) b,
          take found e @ map int (seps_between s this sep i k)
            @ drop (found + length (seps_between s this sep i k)) e)"
  using assms
proof (induction k arbitrary: i found lp b e)
  case 0
  then show ?case by (simp add: seps_between_0)
next
  case (Suc k)
  have i: "this + 2 + i < HeapSize" using Suc.prems(1) by simp
  have k: "this + 2 + Suc i + k \<le> HeapSize" using Suc.prems(1) by simp
  show ?case
  proof (cases "uint (heap s (this + 2 + i)) = sep")
    case True
    let ?new = "seps_between s this sep (Suc i) k"
    have new: "seps_between s this sep i (Suc k) = i # ?new"
      using True by (simp add: seps_between_Suc)
    have f: "found < length b" "found < length e"
      using Suc.prems(2,3) new by simp_all
    have room: "Suc found + length ?new \<le> length (b[found := lp])"
      using Suc.prems(3) new by simp
    have len: "length (e[found := int i]) = length (b[found := lp])"
      using Suc.prems(2) by simp
    have tb: "take (Suc found) (b[found := lp]) = take found b @ [lp]"
      using f by (simp add: take_Suc_conv_app_nth)
    have te: "take (Suc found) (e[found := int i]) = take found e @ [int i]"
      using f by (simp add: take_Suc_conv_app_nth)
    show ?thesis
      using True i f
      by (simp add: log_get_val_ok rd_ok arr_set_def Suc.IH [OF k len room] new tb te)
  next
    case False
    have new: "seps_between s this sep i (Suc k) = seps_between s this sep (Suc i) k"
      using False by (simp add: seps_between_Suc)
    show ?thesis
      using False i Suc.prems(2,3)
      by (simp add: log_get_val_ok rd_ok Suc.IH [OF k] new)
  qed
qed

lemma Str_split_loop_overflow:
  assumes "this + 2 + i + k \<le> HeapSize" "length e = length b"
    "found + length (seps_between s this sep i k) > length b" "found \<le> length b"
  shows "Str_split_loop k i this sep (found, lp, b, e) s = Inl OutOfBounds"
  using assms
proof (induction k arbitrary: i found lp b e)
  case 0
  then show ?case by (simp add: seps_between_0)
next
  case (Suc k)
  have i: "this + 2 + i < HeapSize" using Suc.prems(1) by simp
  have k: "this + 2 + Suc i + k \<le> HeapSize" using Suc.prems(1) by simp
  show ?case
  proof (cases "uint (heap s (this + 2 + i)) = sep")
    case True
    let ?new = "seps_between s this sep (Suc i) k"
    have new: "seps_between s this sep i (Suc k) = i # ?new"
      using True by (simp add: seps_between_Suc)
    show ?thesis
    proof (cases "found < length b")
      case f: True
      have room: "Suc found + length ?new > length (b[found := lp])"
        using Suc.prems(3) new by simp
      have len: "length (e[found := int i]) = length (b[found := lp])"
        using Suc.prems(2) by simp
      have f': "Suc found \<le> length (b[found := lp])" using f by simp
      show ?thesis
        using True i f Suc.prems(2)
        by (simp add: log_get_val_ok rd_ok arr_set_def Suc.IH [OF k len room f'])
    next
      case False
      then show ?thesis
        using True i by (simp add: log_get_val_ok rd_ok arr_set_def)
    qed
  next
    case False
    have new: "seps_between s this sep i (Suc k) = seps_between s this sep (Suc i) k"
      using False by (simp add: seps_between_Suc)
    show ?thesis
      using False i Suc.prems(2,3,4)
      by (simp add: log_get_val_ok rd_ok Suc.IH [OF k] new)
  qed
qed


lemma sep_positions_seps_between:
  "sep_positions sep (Str_chars s this) = seps_between s this sep 0 (unat (heap s (this + 1)))"
  unfolding sep_positions_def seps_between_def Str_chars_def
  by (rule filter_cong) simp_all

lemma update_after_prefix:
  assumes "length xs = c" "c < length b"
  shows "(xs @ drop c b)[c := v] = (xs @ [v]) @ drop (Suc c) b"
proof -
  have "drop c b = b ! c # drop (Suc c) b"
    using assms(2) by (simp add: Cons_nth_drop_Suc)
  then show ?thesis using assms(1) by (simp add: list_update_append)
qed

lemma Str_split_ok:
  assumes bound: "this + 2 + unat (heap s (this + 1)) \<le> HeapSize"
    and lb: "length b = 5" and le: "length e = 5"
    and c: "length (seps_between s this sep 0 (unat (heap s (this + 1)))) \<le> 4"
  shows "Str_split this sep b e s =
     Inr (int (length (seps_between s this sep 0 (unat (heap s (this + 1))))) + 1,
          map int (0 # map Suc (seps_between s this sep 0 (unat (heap s (this + 1)))))
            @ drop (Suc (length (seps_between s this sep 0 (unat (heap s (this + 1)))))) b,
          map int (seps_between s this sep 0 (unat (heap s (this + 1)))
                    @ [unat (heap s (this + 1))])
            @ drop (Suc (length (seps_between s this sep 0 (unat (heap s (this + 1)))))) e)"
proof -
  let ?len = "heap s (this + 1)"
  let ?ps = "seps_between s this sep 0 (unat ?len)"
  let ?xs = "map (\<lambda>j. int j + 1) ?ps"
  have bound': "this + 2 + 0 + unat ?len \<le> HeapSize" using bound by simp
  have rd1: "rd s (this + 1) = Inr ?len" using bound by (simp add: rd_ok)
  have ll: "length e = length b" using lb le by simp
  have room: "0 + length ?ps \<le> length b" using c lb by simp
  have loop: "Str_split_loop (unat ?len) 0 this sep (0, 0, b, e) s =
      Inr (length ?ps, last (0 # ?xs), butlast (0 # ?xs) @ drop (length ?ps) b,
           map int ?ps @ drop (length ?ps) e)"
    using Str_split_loop_ok [OF bound' ll room, of 0] by simp
  have lbl: "length (butlast (0 # ?xs)) = length ?ps"
    by (simp add: length_butlast del: butlast.simps)
  have cb: "length ?ps < length b" "length ?ps < length e"
    using c lb le by simp_all
  have "butlast (0 # ?xs) @ [last (0 # ?xs)] = 0 # ?xs"
    by (rule append_butlast_last_id) simp
  also have "0 # ?xs = map int (0 # map Suc ?ps)" by simp
  finally have x: "butlast (0 # ?xs) @ [last (0 # ?xs)] = map int (0 # map Suc ?ps)" .
  have b': "(butlast (0 # ?xs) @ drop (length ?ps) b)[length ?ps := last (0 # ?xs)]
          = map int (0 # map Suc ?ps) @ drop (Suc (length ?ps)) b"
    by (simp only: update_after_prefix [OF lbl cb(1)] x)
  have y: "map int ?ps @ [uint ?len] = map int (?ps @ [unat ?len])"
    by simp
  have lm: "length (map int ?ps) = length ?ps" by simp
  have e': "(map int ?ps @ drop (length ?ps) e)[length ?ps := uint ?len]
          = map int (?ps @ [unat ?len]) @ drop (Suc (length ?ps)) e"
    by (simp only: update_after_prefix [OF lm cb(2)] y)
  have "Str_split this sep b e s =
     bindr (arr_set (butlast (0 # ?xs) @ drop (length ?ps) b) (length ?ps) (last (0 # ?xs))) (\<lambda>b2.
     bindr (arr_set (map int ?ps @ drop (length ?ps) e) (length ?ps) (uint ?len)) (\<lambda>e2.
     Inr (int (length ?ps) + 1, b2, e2)))"
    unfolding Str_split_def rd1 bindr_Inr loop by simp
  also have "arr_set (butlast (0 # ?xs) @ drop (length ?ps) b) (length ?ps) (last (0 # ?xs))
       = Inr (map int (0 # map Suc ?ps) @ drop (Suc (length ?ps)) b)"
    unfolding arr_set_def b' using cb(1) lbl by (simp del: butlast.simps last.simps)
  also have "arr_set (map int ?ps @ drop (length ?ps) e) (length ?ps) (uint ?len)
       = Inr (map int (?ps @ [unat ?len]) @ drop (Suc (length ?ps)) e)"
    unfolding arr_set_def e' using cb(2) by simp
  finally show ?thesis by simp
qed

lemma Str_split_overflow:
  assumes bound: "this + 2 + unat (heap s (this + 1)) \<le> HeapSize"
    and lb: "length b = 5" and le: "length e = 5"
    and c: "\<not> length (seps_between s this sep 0 (unat (heap s (this + 1)))) \<le> 4"
  shows "Str_split this sep b e s = Inl OutOfBounds"
proof -
  let ?len = "heap s (this + 1)"
  let ?ps = "seps_between s this sep 0 (unat ?len)"
  let ?xs = "map (\<lambda>j. int j + 1) ?ps"
  have bound': "this + 2 + 0 + unat ?len \<le> HeapSize" using bound by simp
  have rd1: "rd s (this + 1) = Inr ?len" using bound by (simp add: rd_ok)
  have ll: "length e = length b" using lb le by simp
  show ?thesis
  proof (cases "length ?ps = 5")
    case True
    then have room: "0 + length ?ps \<le> length b" using lb by simp
    have loop: "Str_split_loop (unat ?len) 0 this sep (0, 0, b, e) s =
        Inr (length ?ps, last (0 # ?xs), butlast (0 # ?xs) @ drop (length ?ps) b,
             map int ?ps @ drop (length ?ps) e)"
      using Str_split_loop_ok [OF bound' ll room, of 0] by simp
    have "length (butlast (0 # ?xs) @ drop (length ?ps) b) = 5"
      using True lb by (simp add: length_butlast del: butlast.simps)
    then have "arr_set (butlast (0 # ?xs) @ drop (length ?ps) b) (length ?ps) (last (0 # ?xs))
       = Inl OutOfBounds"
      unfolding arr_set_def using True by (simp del: butlast.simps last.simps)
    then show ?thesis
      unfolding Str_split_def rd1 bindr_Inr loop by simp
  next
    case False
    with c have room: "0 + length ?ps > length b" using lb by simp
    have "Str_split_loop (unat ?len) 0 this sep (0, 0, b, e) s = Inl OutOfBounds"
      by (rule Str_split_loop_overflow [OF bound' ll room]) simp
    then show ?thesis
      unfolding Str_split_def rd1 bindr_Inr by simp
  qed
qed


text \<open>
  Claim C10. \<^verbatim>\<open>StrRef::split\<close> hands \<^verbatim>\<open>Str::split\<close> two buffers of five \<^verbatim>\<open>int\<close>s. For a
  Str that lies inside the heap, the call writes inside the buffers exactly when the string
  holds at most four separators. It then returns the number of separators plus one, with
  \<^verbatim>\<open>begin\<close> holding 0 followed by the position after each separator and \<^verbatim>\<open>end\<close> holding
  the position of each separator followed by the length: segment \<open>k\<close> runs from just
  after separator \<open>k - 1\<close> up to separator \<open>k\<close>, so the segments and the separators
  between them cover the whole string. The buffer entries past the last segment keep their
  indeterminate contents. With five or more separators a write lands outside a buffer.
\<close>

theorem StrRef_split_buffers:
  assumes "map_of (root s) hid = Some loc"
    and "unat loc + 2 + length (Str_chars s (unat loc)) \<le> HeapSize"
  shows "StrRef_split_call hid sep junk s =
     (let cs = Str_chars s (unat loc); ps = sep_positions sep cs; c = length ps in
      if c \<le> 4
      then Inr (int c + 1,
                map int (0 # map Suc ps) @ map junk [c + 1..<5],
                map int (ps @ [length cs]) @ map junk [c + 6..<10])
      else Inl OutOfBounds)"
proof -
  let ?obj = "unat loc"
  let ?len = "heap s (?obj + 1)"
  let ?ps = "seps_between s ?obj sep 0 (unat ?len)"
  define b where "b = map junk [0..<5]"
  define e where "e = map junk [5..<10]"
  have lb: "length b = 5" and le: "length e = 5" by (simp_all add: b_def e_def)
  have len: "length (Str_chars s ?obj) = unat ?len" by (simp add: Str_chars_def)
  have bound: "?obj + 2 + unat ?len \<le> HeapSize" using assms(2) len by simp
  have ps: "sep_positions sep (Str_chars s ?obj) = ?ps" by (rule sep_positions_seps_between)
  have call: "StrRef_split_call hid sep junk s = Str_split ?obj sep b e s"
    unfolding StrRef_split_call_def ObjRef_loc_def assms(1) b_def e_def by simp
  have db: "drop (Suc c) b = map junk [c + 1..<5]" for c
    unfolding b_def by (simp only: drop_map drop_upt) simp
  have de: "drop (Suc c) e = map junk [c + 6..<10]" for c
    unfolding e_def by (simp only: drop_map drop_upt) (simp add: add.commute)
  show ?thesis
  proof (cases "length ?ps \<le> 4")
    case True
    show ?thesis
      unfolding call Let_def ps len Str_split_ok [OF bound lb le True] db de
      using True by simp
  next
    case False
    show ?thesis
      unfolding call Let_def ps len Str_split_overflow [OF bound lb le False]
      using False by simp
  qed
qed

theorem StrRef_split_buffers_witness:
  "StrRef_split_call 1 44 (\<lambda>i. 0) split_example = Inr (2, [0, 2, 0, 0, 0], [1, 3, 0, 0, 0])"
proof -
  have cs: "Str_chars split_example (Suc 0) = [97, 44, 98]"
    by (simp add: Str_chars_def split_example_def upt_rec)
  have r: "map_of (root split_example) 1 = Some (1 :: Loc)"
    by (simp add: split_example_def)
  have b: "unat (1 :: Loc) + 2 + length (Str_chars split_example (unat (1 :: Loc))) \<le> HeapSize"
    by (simp add: cs HeapSize_def)
  have ps: "sep_positions 44 [97, 44, 98 :: UWd] = [1]"
    by (simp add: sep_positions_def upt_rec)
  show ?thesis
    using StrRef_split_buffers [OF r b, of 44 "\<lambda>i. 0"]
    by (simp add: cs ps upt_rec)
qed

subsection \<open>What the steps of a collection leave alone\<close>

lemma bindrE:
  assumes "bindr m f = Inr y"
  obtains x where "m = Inr x" "f x = Inr y"
  using assms by (cases m) simp_all

lemma quiet_refl [simp]: "quiet_step s s"
  by (simp add: quiet_step_def)

lemma quiet_heap [simp]: "quiet_step s0 (s\<lparr>heap := h\<rparr>) = quiet_step s0 s"
  by (simp add: quiet_step_def)

lemma quiet_live [simp]: "quiet_step s0 (s\<lparr>live := l\<rparr>) = quiet_step s0 s"
  by (simp add: quiet_step_def)

lemma quiet_root [simp]: "quiet_step s0 (s\<lparr>root := r\<rparr>) = quiet_step s0 s"
  by (simp add: quiet_step_def)








lemma quiet_log_get_val:
  "log_get_val a s = Inr s' \<Longrightarrow> quiet_step s0 s \<Longrightarrow> quiet_step s0 s'"
  by (auto simp add: log_get_val_def elim!: bindrE)








lemma log_get_val_same: "log_get_val a s = Inr s' \<Longrightarrow> s' = s"
  by (auto simp add: log_get_val_def elim!: bindrE)

text \<open>A traversal changes the state through its visit function only.\<close>

lemma traverse_preserves_both:
  fixes f :: VisitFn
  assumes f: "\<And>l s s'. f l s = Inr s' \<Longrightarrow> P s \<Longrightarrow> P s'"
  shows "(\<forall>this s s'. traverse n f this s = Inr s' \<longrightarrow> P s \<longrightarrow> P s') \<and>
         (\<forall>this i s s'. Tup_traverse n f this i s = Inr s' \<longrightarrow> P s
             \<longrightarrow> P s')"
proof (induction n)
  case 0
  show ?case by simp
next
  case (Suc n)
  then have IHt: "\<And>this s s'. traverse n f this s = Inr s' \<Longrightarrow> P s \<Longrightarrow> P s'"
    and IHT: "\<And>this i s s'. Tup_traverse n f this i s = Inr s' \<Longrightarrow> P s
        \<Longrightarrow> P s'"
    by blast+
  have t: "P s'" if eq: "traverse (Suc n) f this s = Inr s'" and q: "P s"
    for this s s'
  proof -
    from eq [unfolded traverse.simps]
    obtain ty where ty: "Obj_type s this = Inr ty"
      and r: "(case ty of
           TTup \<Rightarrow> Tup_traverse n f this 0 s
         | TVec \<Rightarrow>
             bindr (log_get_val (this + 2) s) (\<lambda>s1.
             bindr (rd s1 (this + 2)) (\<lambda>tup.
             bindr (f tup s1) (\<lambda>s2.
             bindr (rd s2 (this + 2)) (\<lambda>tup'.
             Tup_traverse n f (unat tup') 0 s2))))
         | _ \<Rightarrow> Inr s) = Inr s'"
      by (rule bindrE)
    show ?thesis
    proof (cases ty)
      case TTup
      with r have "Tup_traverse n f this 0 s = Inr s'" by simp
      then show ?thesis using q by (rule IHT)
    next
      case TVec
      with r have "bindr (log_get_val (this + 2) s) (\<lambda>s1.
             bindr (rd s1 (this + 2)) (\<lambda>tup.
             bindr (f tup s1) (\<lambda>s2.
             bindr (rd s2 (this + 2)) (\<lambda>tup'.
             Tup_traverse n f (unat tup') 0 s2)))) = Inr s'"
        by (simp only: Type.case)
      then obtain s1 tup s2 tup' where
        a: "log_get_val (this + 2) s = Inr s1" and b: "rd s1 (this + 2) = Inr tup"
        and c: "f tup s1 = Inr s2" and d: "rd s2 (this + 2) = Inr tup'"
        and e: "Tup_traverse n f (unat tup') 0 s2 = Inr s'"
        by (elim bindrE) (rule that)
      have "P s1" using log_get_val_same [OF a] q by simp
      with c have "P s2" by (rule f)
      with e show ?thesis by (rule IHT)
    qed (use r q in auto)
  qed
  have T: "P s'" if eq: "Tup_traverse (Suc n) f this i s = Inr s'"
    and q: "P s" for this i s s'
  proof -
    from eq [unfolded Tup_traverse.simps]
    obtain len where len: "rd s (this + 1) = Inr len"
      and r: "(if i < unat len
         then bindr (log_get_val (this + 2 + i) s) (\<lambda>s1.
              bindr (rd s1 (this + 2 + i)) (\<lambda>v.
              bindr (f v s1) (\<lambda>s2.
              bindr (rd s2 (this + 2 + i)) (\<lambda>v'.
              bindr (traverse n f (unat v') s2) (\<lambda>s3.
              Tup_traverse n f this (Suc i) s3)))))
         else Inr s) = Inr s'"
      by (rule bindrE)
    show ?thesis
    proof (cases "i < unat len")
      case True
      with r have "bindr (log_get_val (this + 2 + i) s) (\<lambda>s1.
              bindr (rd s1 (this + 2 + i)) (\<lambda>v.
              bindr (f v s1) (\<lambda>s2.
              bindr (rd s2 (this + 2 + i)) (\<lambda>v'.
              bindr (traverse n f (unat v') s2) (\<lambda>s3.
              Tup_traverse n f this (Suc i) s3))))) = Inr s'"
        by (simp only: if_True)
      then obtain s1 v s2 v' s3 where
        a: "log_get_val (this + 2 + i) s = Inr s1" and b: "rd s1 (this + 2 + i) = Inr v"
        and c: "f v s1 = Inr s2" and d: "rd s2 (this + 2 + i) = Inr v'"
        and e: "traverse n f (unat v') s2 = Inr s3"
        and g: "Tup_traverse n f this (Suc i) s3 = Inr s'"
        by (elim bindrE) (rule that)
      have "P s1" using log_get_val_same [OF a] q by simp
      with c have "P s2" by (rule f)
      with e have "P s3" by (rule IHt)
      with g show ?thesis by (rule IHT)
    next
      case False
      with r q show ?thesis by simp
    qed
  qed
  from t T show ?case by blast
qed

lemma traverse_preserves:
  fixes f :: VisitFn
  assumes "\<And>l s s'. f l s = Inr s' \<Longrightarrow> P s \<Longrightarrow> P s'"
    and "traverse n f this s = Inr s'" and "P s"
  shows "P s'"
proof -
  have "(\<forall>this s s'. traverse n f this s = Inr s' \<longrightarrow> P s \<longrightarrow> P s') \<and>
         (\<forall>this i s s'. Tup_traverse n f this i s = Inr s' \<longrightarrow> P s
             \<longrightarrow> P s')"
    by (rule traverse_preserves_both) (rule assms(1))
  then show ?thesis using assms(2,3) by blast
qed


lemma mark_live_loc_preserves:
  assumes "\<And>l s. P s \<Longrightarrow> P (log_msg (Ev_ref_count l 1) s)"
    and "\<And>l s. P s \<Longrightarrow> P (s\<lparr>live := l\<rparr>)"
    and "mark_live_loc loc s = Inr s'" and "P s"
  shows "P s'"
  using assms(3,4) unfolding mark_live_loc_def log_ref_count_def
  by (auto elim!: bindrE split: if_splits intro: assms(1,2))













lemma decode_header_0 [simp]:
  "decode_header 0 = \<lparr>ref_count = 0, mark = False, type_tag = 0, unused_bits = 0\<rparr>"
  by (simp add: decode_header_def)

lemma gc_copy_initial: "gc 1 (initial_mem COPY_GC) = Inr gc_copy_initial_result"
  unfolding gc_copy_initial_result_def
  apply (simp add: gc_def initial_mem_def)
  apply (simp add: move_live_def mark_live_def mark_live_loc_def)
  apply (simp add: Obj_type_def Obj_header_def rd_def HeapSize_def Type_of_tag_def HeapSemiSize_def)
  apply (simp add: fixup_references_def loc_after_move_def Obj_type_def Obj_header_def rd_def
      HeapSize_def Type_of_tag_def HeapSemiSize_def)
  apply (simp add: log_free_mem_def info_range_def HeapSize_def log_msg_def)
  done


subsection \<open>Headers\<close>

lemma ref_count_encode: "ucast (encode_header h) = ref_count h"
  unfolding encode_header_def
  by (rule bit_word_eqI) (auto simp add: bit_simps dest: bit_imp_le_length)

lemma mark_encode: "bit (encode_header h) 8 = mark h"
  unfolding encode_header_def
  by (auto simp add: bit_simps dest: bit_imp_le_length)

lemma type_tag_encode: "ucast (drop_bit 9 (encode_header h)) = type_tag h"
  unfolding encode_header_def
  by (rule bit_word_eqI) (auto simp add: bit_simps dest: bit_imp_le_length)

lemma unused_bits_encode: "ucast (drop_bit 13 (encode_header h)) = unused_bits h"
  unfolding encode_header_def
  by (rule bit_word_eqI) (auto simp add: bit_simps dest: bit_imp_le_length)

lemma decode_encode [simp]: "decode_header (encode_header h) = h"
  by (simp add: decode_header_def ref_count_encode mark_encode type_tag_encode unused_bits_encode)

lemma encode_decode [simp]: "encode_header (decode_header w) = w"
proof -
  have "bit (encode_header (decode_header w)) n = bit w n" if "n < 16" for n
  proof -
    consider "n < 8" | "n = 8" | "9 \<le> n" "n < 13" | "13 \<le> n" by linarith
    then show ?thesis using that unfolding decode_header_def encode_header_def
      by cases (auto simp add: bit_simps)
  qed
  then show ?thesis by (intro bit_word_eqI) simp
qed

lemma Type_of_tag_of_Type [simp]: "ty \<noteq> TInvalid \<Longrightarrow> Type_of_tag (tag_of_Type ty) = ty"
  by (cases ty) (simp_all add: Type_of_tag_def)

lemma Type_of_tag_0 [simp]: "Type_of_tag 0 = TNil"
  by (simp add: Type_of_tag_def)

subsection \<open>Single steps in closed form\<close>

lemma wr_ok: "i < HeapSize \<Longrightarrow> wr i v s = Inr (s\<lparr>heap := (heap s)(i := v)\<rparr>)"
  by (simp add: wr_def)

lemma Obj_header_ok: "this < HeapSize \<Longrightarrow> Obj_header s this = Inr (decode_header (heap s this))"
  by (simp add: Obj_header_def rd_ok)

lemma Obj_type_ok:
  "this < HeapSize \<Longrightarrow> Obj_type s this = Inr (Type_of_tag (type_tag (decode_header (heap s this))))"
  by (simp add: Obj_type_def Obj_header_ok)

lemma log_ref_count_addr_ok:
  "a < HeapSize \<Longrightarrow> log_ref_count_addr a n s = Inr (log_msg (Ev_ref_count a n) s)"
  by (simp add: log_ref_count_addr_def addr_to_loc_ok log_ref_count_def)

lemma log_init_obj_ok:
  "a < HeapSize \<Longrightarrow> log_init_obj a ty s = Inr (log_msg (Ev_init a (TypeName ty)) s)"
  by (simp add: log_init_obj_def addr_to_loc_ok log_msg_def)

lemma log_set_val_ok: "a < HeapSize \<Longrightarrow> log_set_val a v s = Inr (log_msg (Ev_set_int a v) s)"
  by (simp add: log_set_val_def addr_to_loc_ok)

lemma log_set_ref_ok:
  "a < HeapSize \<Longrightarrow> log_set_ref a v s = Inr (log_msg (Ev_set_ref a (unat v)) s)"
  by (simp add: log_set_ref_def addr_to_loc_ok)

lemma log_msg_heap_update [simp]: "log_msg e (s\<lparr>heap := h\<rparr>) = (log_msg e s)\<lparr>heap := h\<rparr>"
  by (simp add: log_msg_def)

lemma hdr_upd_same [simp]: "hdr_upd f this h this = encode_header (f (decode_header (h this)))"
  by (simp add: hdr_upd_def)

lemma hdr_upd_other [simp]: "i \<noteq> this \<Longrightarrow> hdr_upd f this h i = h i"
  by (simp add: hdr_upd_def)

lemma hdr_upd_hdr_upd [simp]: "hdr_upd f this (hdr_upd g this h) = hdr_upd (\<lambda>x. f (g x)) this h"
  by (rule ext) (simp add: hdr_upd_def)

lemma set_header_ok:
  "this < HeapSize \<Longrightarrow> set_header this (f (decode_header (heap s this))) s
     = Inr (s\<lparr>heap := hdr_upd f this (heap s)\<rparr>)"
  by (simp add: set_header_def wr_ok hdr_upd_def)

lemma init_ref_count_ok:
  "this < HeapSize \<Longrightarrow> init_ref_count this s =
     Inr (if gc_mode s = REF_COUNT_GC
          then (log_msg (Ev_ref_count this 1) s)\<lparr>heap := hdr_upd (\<lambda>h. h\<lparr>ref_count := 1\<rparr>) this (heap s)\<rparr>
          else s\<lparr>heap := hdr_upd (\<lambda>h. h\<lparr>ref_count := 0\<rparr>) this (heap s)\<rparr>)"
  by (simp add: init_ref_count_def Obj_header_ok log_ref_count_addr_ok
      set_header_ok [where f = "\<lambda>h. h\<lparr>ref_count := 1\<rparr>"]
      set_header_ok [where f = "\<lambda>h. h\<lparr>ref_count := 0\<rparr>"])

lemma inc_ref_count_ok:
  "this < HeapSize \<Longrightarrow> inc_ref_count this s =
     Inr (if gc_mode s = REF_COUNT_GC
          then (log_msg (Ev_ref_count this (uint (ref_count (decode_header (heap s this)) + 1))) s)
                 \<lparr>heap := hdr_upd (\<lambda>h. h\<lparr>ref_count := ref_count h + 1\<rparr>) this (heap s)\<rparr>
          else s)"
  by (simp add: inc_ref_count_def Obj_header_ok log_ref_count_addr_ok
      set_header_ok [where f = "\<lambda>h. h\<lparr>ref_count := ref_count h + 1\<rparr>"])

lemma init_header_fun:
  "init_header m ty = (\<lambda>h. h\<lparr>type_tag := tag_of_Type ty,
      ref_count := (if m = REF_COUNT_GC then 1 else 0), mark := False\<rparr>)"
  by (rule ext) (simp add: init_header_def)

lemma Obj_init_ok:
  "this < HeapSize \<Longrightarrow> Obj_init ty this s =
     Inr ((if gc_mode s = REF_COUNT_GC
           then log_msg (Ev_ref_count this 1) (log_msg (Ev_init this (TypeName ty)) s)
           else log_msg (Ev_init this (TypeName ty)) s)
          \<lparr>heap := hdr_upd (init_header (gc_mode s) ty) this (heap s)\<rparr>)"
  by (simp add: Obj_init_def log_init_obj_ok Obj_header_ok init_ref_count_ok
      set_header_ok [where f = "\<lambda>h. h\<lparr>type_tag := tag_of_Type ty\<rparr>"]
      set_header_ok [where f = "\<lambda>h. h\<lparr>mark := False\<rparr>"] init_header_fun)


lemma Mem_free_ok:
  "unat loc + 1 < HeapSize \<Longrightarrow> info_range (unat loc) n \<Longrightarrow> Mem_free loc n s =
     Inr (log_msg (Ev_free (unat loc) n)
          ((if gc_mode s = REF_COUNT_GC
            then log_msg (Ev_ref_count (unat loc) 1) (log_msg (Ev_init (unat loc) (TypeName TFree)) s)
            else log_msg (Ev_init (unat loc) (TypeName TFree)) s)
           \<lparr>heap := (hdr_upd (init_header (gc_mode s) TFree) (unat loc) (heap s))
                      (unat loc + 1 := word_of_int n)\<rparr>))"
  by (simp add: Mem_free_def Obj_init_ok wr_ok log_free_mem_def)

subsection \<open>Copying in closed form\<close>

lemma copy_words_self: "from + k \<le> HeapSize \<Longrightarrow> copy_words k from from s = Inr s"
proof (induction k arbitrary: "from" s)
  case 0
  then show ?case by simp
next
  case (Suc k)
  have "from < HeapSize" "Suc from + k \<le> HeapSize" using Suc.prems by simp_all
  then show ?case by (simp add: rd_def wr_def Suc.IH)
qed

lemma copy_down_0 [simp]: "copy_down h to from 0 = h"
  by (rule ext) (auto simp add: copy_down_def)

lemma copy_down_Suc:
  "to \<le> from \<Longrightarrow>
   copy_down (\<lambda>a. if a = to then h from else h a) (Suc to) (Suc from) k = copy_down h to from (Suc k)"
  by (rule ext) (auto simp add: copy_down_def intro!: arg_cong [where f = h])

lemma copy_words_down:
  "to \<le> from \<Longrightarrow> from + k \<le> HeapSize \<Longrightarrow>
   copy_words k to from s = Inr (s\<lparr>heap := copy_down (heap s) to from k\<rparr>)"
proof (induction k arbitrary: to "from" s)
  case 0
  then show ?case by simp
next
  case (Suc k)
  have "from < HeapSize" "to < HeapSize" "Suc to \<le> Suc from" "Suc from + k \<le> HeapSize"
    using Suc.prems by simp_all
  then show ?case using Suc.prems(1)
    by (simp add: rd_def wr_def Suc.IH copy_down_Suc)
qed

text \<open>The heap after the copy of \<open>k\<close> words from \<open>from\<close> up to a disjoint range at \<open>to\<close>.\<close>

lemma copy_up_Suc:
  "from + Suc k \<le> to \<Longrightarrow>
   copy_down (\<lambda>a. if a = to then h from else h a) (Suc to) (Suc from) k = copy_down h to from (Suc k)"
  by (rule ext) (auto simp add: copy_down_def intro!: arg_cong [where f = h])

lemma copy_words_up:
  "from + k \<le> to \<Longrightarrow> to + k \<le> HeapSize \<Longrightarrow>
   copy_words k to from s = Inr (s\<lparr>heap := copy_down (heap s) to from k\<rparr>)"
proof (induction k arbitrary: to "from" s)
  case 0
  then show ?case by simp
next
  case (Suc k)
  have "from < HeapSize" "to < HeapSize" "Suc from + k \<le> Suc to" "Suc to + k \<le> HeapSize"
    using Suc.prems by simp_all
  then show ?case using Suc.prems(1)
    by (simp add: rd_def wr_def Suc.IH copy_up_Suc)
qed


lemma zero_range_zero [simp]: "zero_range (\<lambda>i. 0) i k = (\<lambda>i. 0)"
  by (rule ext) (simp add: zero_range_def)

lemma fun_upd_zero [simp]: "(\<lambda>i. 0 :: UWd)(k := 0) = (\<lambda>i. 0)"
  by (rule ext) simp

lemma encode_Str [simp]:
  "encode_header \<lparr>ref_count = 0, mark = False, type_tag = 6, unused_bits = 0\<rparr> = 3072"
  by (simp add: encode_header_def)

lemma encode_Forward [simp]:
  "encode_header \<lparr>ref_count = 0, mark = False, type_tag = 1, unused_bits = 0\<rparr> = 512"
  by (simp add: encode_header_def)

lemma decode_3072 [simp]:
  "decode_header 3072 = \<lparr>ref_count = 0, mark = False, type_tag = 6, unused_bits = 0\<rparr>"
  by (simp add: decode_header_def)

lemma decode_512 [simp]:
  "decode_header 512 = \<lparr>ref_count = 0, mark = False, type_tag = 1, unused_bits = 0\<rparr>"
  by (simp add: decode_header_def)

lemma Str997_allocated_ok: "StrRef_len 1 997 (initial_mem COPY_GC) = Inr Str997_allocated"
  apply (simp add: StrRef_len_def ObjRef_ALLOC_def Str_size_needed_def Mem_alloc_eq initial_mem_def HeapSize_def)
  apply (simp add: init_ref_count_ok HeapSize_def add_to_root_set_def ObjRef_loc_def)
  apply (simp add: Str_init_len_def Obj_init_ok HeapSize_def wr_ok rd_ok log_set_val_ok)
  apply (simp add: log_msg_def hdr_upd_def init_header_def Str997_allocated_def numeral_2_eq_2)
  done

lemmas exec_simps = gc_def move_live_def mark_live_def mark_live_loc_def Obj_type_ok
  Obj_size_def rd_ok wr_ok HeapSize_def HeapSemiSize_def Mem_move_def Mem_reserve_eq
  copy_words_self Obj_init_ok log_copy_mem_def info_range_def fixup_references_def
  loc_after_move_def log_free_mem_def hdr_upd_def init_header_def Type_of_tag_def log_msg_def

lemma Str997_collected_ok: "gc 1 Str997_allocated = Inr Str997_collected"
  unfolding Str997_allocated_def Str997_collected_def
  apply (simp add: exec_simps)
  apply (simp add: exec_simps numeral_2_eq_2)
  done


lemma Str_chars_Str997: "Str_chars Str997_allocated (Suc 0) = replicate 997 0"
proof (rule nth_equalityI)
  show "length (Str_chars Str997_allocated (Suc 0)) = length (replicate 997 (0 :: UWd))"
    by (simp add: Str_chars_def Str997_allocated_def)
  show "Str_chars Str997_allocated (Suc 0) ! i = replicate 997 0 ! i"
    if "i < length (Str_chars Str997_allocated (Suc 0))" for i
    using that by (simp add: Str_chars_def Str997_allocated_def)
qed

lemma Str997_allocated_cell:
  "Obj_type Str997_allocated (Suc 0) = Inr TStr" "rd Str997_allocated (Suc (Suc 0)) = Inr 997"
  by (simp_all add: Obj_type_ok rd_ok HeapSize_def Type_of_tag_def Str997_allocated_def)

lemma Str997_collected_cell:
  "Obj_type Str997_collected (Suc 0) = Inr TForward" "rd Str997_collected (Suc (Suc 0)) = Inr 1"
  by (simp_all add: Obj_type_ok rd_ok HeapSize_def Type_of_tag_def Str997_collected_def)

text \<open>
  Claim C1 at a failing input. In copying mode, \<^verbatim>\<open>StrRef s(997); Mem::gc();\<close> from the
  initial state: the Str fills the lower region exactly, so \<open>top = HeapSemiSize\<close> and
  \<^verbatim>\<open>move_live\<close> takes the upper region for the active one. It flips \<open>top\<close> back to 1 and
  moves the Str onto itself, which overwrites its header and length with a Forward record
  that points to itself. The collection completes. Before it the handle stands for the Str of
  997 zero characters; after it the handle stands for a Forward record.
\<close>

theorem gc_copy_loses_Str:
  "StrRef_len 1 997 (initial_mem COPY_GC) = Inr Str997_allocated \<and>
   gc 1 Str997_allocated = Inr Str997_collected \<and>
   ObjRef_loc Str997_allocated 1 = Inr 1 \<and>
   value_of 1 Str997_allocated 1 = Inr (Str_val (replicate 997 0)) \<and>
   ObjRef_loc Str997_collected 1 = Inr 1 \<and>
   value_of 1 Str997_collected 1 = Inr (Forward_val 1)"
proof -
  have "ObjRef_loc Str997_allocated 1 = Inr 1" "ObjRef_loc Str997_collected 1 = Inr 1"
    by (simp_all add: ObjRef_loc_def Str997_allocated_def Str997_collected_def)
  moreover have "value_of 1 Str997_allocated 1 = Inr (Str_val (replicate 997 0))"
    by (simp add: Str997_allocated_cell Str_chars_Str997 HeapSize_def)
  moreover have "value_of 1 Str997_collected 1 = Inr (Forward_val 1)"
    by (simp add: Str997_collected_cell)
  ultimately show ?thesis
    using Str997_allocated_ok Str997_collected_ok by (intro conjI)
qed

text \<open>
  Claim C9 at the same failing input: after the completed collection, the handle still holds
  location 1 and the header there has type Forward.
\<close>

theorem gc_copy_leaves_Forward:
  "StrRef_len 1 997 (initial_mem COPY_GC) = Inr Str997_allocated \<and>
   gc 1 Str997_allocated = Inr Str997_collected \<and>
   ObjRef_loc Str997_collected 1 = Inr 1 \<and>
   Obj_type Str997_collected 1 = Inr TForward"
proof -
  have "ObjRef_loc Str997_collected 1 = Inr 1"
    by (simp add: ObjRef_loc_def Str997_collected_def)
  moreover have "Obj_type Str997_collected 1 = Inr TForward"
    by (simp add: Str997_collected_cell)
  ultimately show ?thesis
    using Str997_allocated_ok Str997_collected_ok by (intro conjI)
qed

subsection \<open>What a traversal visits\<close>

lemma visit_all_append:
  "visit_all f (xs @ ys) s = bindr (visit_all f xs s) (visit_all f ys)"
proof (induction xs arbitrary: s)
  case Nil
  show ?case by simp
next
  case (Cons x xs)
  show ?case by (cases "f x s") (simp_all add: Cons.IH)
qed

lemma visit_all_heap:
  fixes f :: VisitFn
  assumes f: "\<And>l t t'. f l t = Inr t' \<Longrightarrow> heap t' = heap t"
  shows "visit_all f vs s = Inr s' \<Longrightarrow> heap s' = heap s"
proof (induction vs arbitrary: s)
  case Nil
  then show ?case by simp
next
  case (Cons v vs)
  from Cons.prems obtain s1 where a: "f v s = Inr s1" and b: "visit_all f vs s1 = Inr s'"
    by (auto elim!: bindrE)
  from Cons.IH [OF b] f [OF a] show ?case by simp
qed

lemma traverse_visited_both:
  fixes f :: VisitFn
  assumes f: "\<And>l t t'. f l t = Inr t' \<Longrightarrow> heap t' = heap t"
  shows "(\<forall>this s vs. visited n (heap s) this = Some vs
            \<longrightarrow> traverse n f this s = visit_all f vs s) \<and>
         (\<forall>this i s vs. Tup_visited n (heap s) this i = Some vs
            \<longrightarrow> Tup_traverse n f this i s = visit_all f vs s)"
proof (induction n)
  case 0
  show ?case by simp
next
  case (Suc n)
  then have IH1: "\<And>this s vs. visited n (heap s) this = Some vs
        \<Longrightarrow> traverse n f this s = visit_all f vs s"
    and IH2: "\<And>this i s vs. Tup_visited n (heap s) this i = Some vs
        \<Longrightarrow> Tup_traverse n f this i s = visit_all f vs s"
    by blast+
  have A: "traverse (Suc n) f this s = visit_all f vs s"
    if v: "visited (Suc n) (heap s) this = Some vs" for this s vs
  proof -
    from v have lt: "this < HeapSize" by (simp split: if_splits)
    let ?ty = "Type_of_tag (type_tag (decode_header (heap s this)))"
    show ?thesis
    proof (cases ?ty)
      case TTup
      with v lt have "Tup_visited n (heap s) this 0 = Some vs" by simp
      from IH2 [OF this] TTup lt show ?thesis by (simp add: Obj_type_ok)
    next
      case TVec
      with v lt have lt2: "this + 2 < HeapSize" by (simp split: if_splits)
      from v lt lt2 TVec obtain ws where
        ws: "Tup_visited n (heap s) (unat (heap s (this + 2))) 0 = Some ws"
        and vs: "vs = heap s (this + 2) # ws"
        by (auto split: option.splits)
      show ?thesis
      proof (cases "f (heap s (this + 2)) s")
        case (Inl e)
        with TVec lt lt2 vs show ?thesis by (simp add: Obj_type_ok log_get_val_ok rd_ok)
      next
        case (Inr s2)
        from f [OF Inr] have h: "heap s2 = heap s" .
        from ws h have "Tup_visited n (heap s2) (unat (heap s (this + 2))) 0 = Some ws"
          by simp
        from IH2 [OF this] Inr TVec lt lt2 vs h show ?thesis
          by (simp add: Obj_type_ok log_get_val_ok rd_ok)
      qed
    qed (use v lt in \<open>simp_all add: Obj_type_ok\<close>)
  qed
  have B: "Tup_traverse (Suc n) f this i s = visit_all f vs s"
    if v: "Tup_visited (Suc n) (heap s) this i = Some vs" for this i s vs
  proof -
    from v have lt: "this + 1 < HeapSize" by (simp split: if_splits)
    show ?thesis
    proof (cases "i < unat (heap s (this + 1))")
      case False
      with v lt show ?thesis by (simp add: rd_ok)
    next
      case True
      with v lt have lt2: "this + 2 + i < HeapSize" by (simp split: if_splits)
      let ?v = "heap s (this + 2 + i)"
      from v lt lt2 True obtain xs ws where
        xs: "visited n (heap s) (unat ?v) = Some xs"
        and ws: "Tup_visited n (heap s) this (Suc i) = Some ws"
        and vs: "vs = ?v # xs @ ws"
        by (auto split: option.splits)
      show ?thesis
      proof (cases "f ?v s")
        case (Inl e)
        with True lt lt2 vs show ?thesis by (simp add: log_get_val_ok rd_ok)
      next
        case (Inr s2)
        from f [OF Inr] have h: "heap s2 = heap s" .
        from xs h have "visited n (heap s2) (unat ?v) = Some xs" by simp
        from IH1 [OF this] have t: "traverse n f (unat ?v) s2 = visit_all f xs s2" .
        show ?thesis
        proof (cases "visit_all f xs s2")
          case (Inl e)
          with t Inr True lt lt2 vs h show ?thesis
            by (simp add: log_get_val_ok rd_ok visit_all_append)
        next
          case s3: (Inr s3)
          from visit_all_heap [of f xs s2 s3] f s3 h have "heap s3 = heap s" by simp
          with ws have "Tup_visited n (heap s3) this (Suc i) = Some ws" by simp
          from IH2 [OF this] t s3 Inr True lt lt2 vs h show ?thesis
            by (simp add: log_get_val_ok rd_ok visit_all_append)
        qed
      qed
    qed
  qed
  from A B show ?case by blast
qed


lemma rd_Inr: "rd s i = Inr v \<Longrightarrow> i < HeapSize \<and> v = heap s i"
  by (simp add: rd_def split: if_splits)

lemma Obj_type_Inr:
  "Obj_type s this = Inr ty \<Longrightarrow>
     this < HeapSize \<and> ty = Type_of_tag (type_tag (decode_header (heap s this)))"
  by (auto simp: Obj_type_def Obj_header_def rd_def split: if_splits)

lemma log_get_val_Inr: "log_get_val a s = Inr s' \<Longrightarrow> s' = s"
  by (auto simp: log_get_val_def elim!: bindrE)

lemma traverse_heap:
  fixes f :: VisitFn
  assumes f: "\<And>l t t'. f l t = Inr t' \<Longrightarrow> heap t' = heap t"
    and t: "traverse n f this s = Inr s'"
  shows "heap s' = heap s"
proof (rule traverse_preserves [where P = "\<lambda>t. heap t = heap s" and f = f, OF _ t])
  show "heap s = heap s" ..
  show "heap t' = heap s" if "f l t = Inr t'" "heap t = heap s" for l t t'
    using f [OF that(1)] that(2) by simp
qed

lemma traverse_defined_both:
  fixes f :: VisitFn
  assumes f: "\<And>l t t'. f l t = Inr t' \<Longrightarrow> heap t' = heap t"
  shows "(\<forall>this s s'. traverse n f this s = Inr s'
            \<longrightarrow> (\<exists>vs. visited n (heap s) this = Some vs)) \<and>
         (\<forall>this i s s'. Tup_traverse n f this i s = Inr s'
            \<longrightarrow> (\<exists>vs. Tup_visited n (heap s) this i = Some vs))"
proof (induction n)
  case 0
  show ?case by simp
next
  case (Suc n)
  then have IH1: "\<And>this s s'. traverse n f this s = Inr s'
        \<Longrightarrow> \<exists>vs. visited n (heap s) this = Some vs"
    and IH2: "\<And>this i s s'. Tup_traverse n f this i s = Inr s'
        \<Longrightarrow> \<exists>vs. Tup_visited n (heap s) this i = Some vs"
    by blast+
  have A: "\<exists>vs. visited (Suc n) (heap s) this = Some vs"
    if t: "traverse (Suc n) f this s = Inr s'" for this s s'
  proof -
    from t [unfolded traverse.simps] obtain ty where ty: "Obj_type s this = Inr ty"
      and r: "(case ty of TTup \<Rightarrow> Tup_traverse n f this 0 s
         | TVec \<Rightarrow>
           bindr (log_get_val (this + 2) s) (\<lambda>s1.
           bindr (rd s1 (this + 2)) (\<lambda>tup.
           bindr (f tup s1) (\<lambda>s2.
           bindr (rd s2 (this + 2)) (\<lambda>tup'.
           Tup_traverse n f (unat tup') 0 s2))))
         | _ \<Rightarrow> Inr s) = Inr s'"
      by (rule bindrE)
    from Obj_type_Inr [OF ty] have lt: "this < HeapSize"
      and ty': "Type_of_tag (type_tag (decode_header (heap s this))) = ty" by simp_all
    show ?thesis
    proof (cases ty)
      case TTup
      with r have "Tup_traverse n f this 0 s = Inr s'" by simp
      from IH2 [OF this] lt ty' TTup show ?thesis by simp
    next
      case TVec
      with r obtain s1 tup s2 tup' where a: "log_get_val (this + 2) s = Inr s1"
        and b: "rd s1 (this + 2) = Inr tup" and c: "f tup s1 = Inr s2"
        and d: "rd s2 (this + 2) = Inr tup'"
        and e: "Tup_traverse n f (unat tup') 0 s2 = Inr s'"
        by (auto elim!: bindrE)
      from log_get_val_Inr [OF a] have s1: "s1 = s" .
      from rd_Inr [OF b] s1 have lt2: "this + 2 < HeapSize" and tup: "tup = heap s (this + 2)"
        by simp_all
      from f [OF c] s1 have h: "heap s2 = heap s" by simp
      from rd_Inr [OF d] h have tup': "tup' = heap s (this + 2)" by simp
      from IH2 [OF e] h tup' obtain ws where
        "Tup_visited n (heap s) (unat (heap s (this + 2))) 0 = Some ws" by auto
      with lt lt2 ty' TVec show ?thesis by simp
    qed (use lt ty' in simp_all)
  qed
  have B: "\<exists>vs. Tup_visited (Suc n) (heap s) this i = Some vs"
    if t: "Tup_traverse (Suc n) f this i s = Inr s'" for this i s s'
  proof -
    from t [unfolded Tup_traverse.simps] obtain len :: UWd where len: "rd s (this + 1) = Inr len"
      and r: "(if i < unat len
       then bindr (log_get_val (this + 2 + i) s) (\<lambda>s1.
            bindr (rd s1 (this + 2 + i)) (\<lambda>v.
            bindr (f v s1) (\<lambda>s2.
            bindr (rd s2 (this + 2 + i)) (\<lambda>v'.
            bindr (traverse n f (unat v') s2) (\<lambda>s3.
            Tup_traverse n f this (Suc i) s3)))))
       else Inr s) = Inr s'"
      by (rule bindrE)
    from rd_Inr [OF len] have lt: "this + 1 < HeapSize" and len': "len = heap s (this + 1)"
      by simp_all
    show ?thesis
    proof (cases "i < unat len")
      case False
      with lt len' show ?thesis by simp
    next
      case True
      with r obtain s1 v s2 v' s3 where a: "log_get_val (this + 2 + i) s = Inr s1"
        and b: "rd s1 (this + 2 + i) = Inr v" and c: "f v s1 = Inr s2"
        and d: "rd s2 (this + 2 + i) = Inr v'"
        and e: "traverse n f (unat v') s2 = Inr s3"
        and g: "Tup_traverse n f this (Suc i) s3 = Inr s'"
        by (auto elim!: bindrE)
      from log_get_val_Inr [OF a] have s1: "s1 = s" .
      from rd_Inr [OF b] s1 have lt2: "this + 2 + i < HeapSize" by simp
      from f [OF c] s1 have h: "heap s2 = heap s" by simp
      from rd_Inr [OF d] h have v': "v' = heap s (this + 2 + i)" by simp
      from traverse_heap [OF f e] h have h3: "heap s3 = heap s" by simp
      from IH1 [OF e] h v' obtain xs where
        xs: "visited n (heap s) (unat (heap s (this + 2 + i))) = Some xs" by auto
      from IH2 [OF g] h3 obtain ws where
        ws: "Tup_visited n (heap s) this (Suc i) = Some ws" by auto
      from xs ws lt lt2 True len' show ?thesis by simp
    qed
  qed
  from A B show ?case by blast
qed

text \<open>
  Claim C6. For a visit function that leaves the heap unchanged, a traversal calls it on the
  locations listed by \<open>visited\<close>, in that order and as often as they are listed: on the
  content of every slot of a Tup (a nil slot included), each followed by the traversal of the
  object in the slot; for a Vec on its backing Tup, followed by the slots of the backing; on
  nothing for the other types. A traversal that returns has such a list.
\<close>

theorem traverse_visits:
  fixes f :: VisitFn
  assumes "\<And>l t t'. f l t = Inr t' \<Longrightarrow> heap t' = heap t"
  shows "(visited n (heap s) this = Some vs \<longrightarrow> traverse n f this s = visit_all f vs s) \<and>
         (traverse n f this s = Inr s' \<longrightarrow> visited n (heap s) this \<noteq> None)"
proof (intro conjI impI)
  have "\<forall>this s vs. visited n (heap s) this = Some vs
      \<longrightarrow> traverse n f this s = visit_all f vs s"
    by (rule conjunct1 [OF traverse_visited_both]) (rule assms)
  then show "traverse n f this s = visit_all f vs s" if "visited n (heap s) this = Some vs"
    using that by blast
  have "\<forall>this s s'. traverse n f this s = Inr s'
      \<longrightarrow> (\<exists>vs. visited n (heap s) this = Some vs)"
    by (rule conjunct1 [OF traverse_defined_both]) (rule assms)
  then have "\<exists>vs. visited n (heap s) this = Some vs" if "traverse n f this s = Inr s'"
    using that by blast
  then show "visited n (heap s) this \<noteq> None" if "traverse n f this s = Inr s'"
    using that by auto
qed

lemma mark_live_loc_heap: "mark_live_loc l t = Inr t' \<Longrightarrow> heap t' = heap t"
  by (rule mark_live_loc_preserves [where P = "\<lambda>u. heap u = heap t"])
    (simp_all add: log_msg_def)

lemma type_2048 [simp]: "Type_of_tag (type_tag (decode_header 2048)) = TTup"
  by (simp add: decode_header_def Type_of_tag_def)

lemma type_1536 [simp]: "Type_of_tag (type_tag (decode_header 1536)) = TNum"
  by (simp add: decode_header_def Type_of_tag_def)

lemma twice_state_heap:
  "heap twice_state (Suc 0) = 2048" "heap twice_state (Suc (Suc 0)) = 2"
  "heap twice_state (Suc (Suc (Suc 0))) = 5" "heap twice_state (Suc (Suc (Suc (Suc 0)))) = 5"
  "heap twice_state 5 = 1536"
  by (simp_all add: twice_state_def)

lemma fuel_4: "4 = Suc (Suc (Suc (Suc 0)))"
  by simp

lemma visited_twice_state: "visited 4 (heap twice_state) 1 = Some [5, 5]"
  unfolding fuel_4 by (simp add: twice_state_heap HeapSize_def)

theorem traverse_visits_witness:
  "visited 4 (heap twice_state) 1 = Some [5, 5] \<and>
   traverse 4 mark_live_loc 1 twice_state = visit_all mark_live_loc [5, 5] twice_state"
proof -
  have "(visited 4 (heap twice_state) 1 = Some [5, 5] \<longrightarrow>
      traverse 4 mark_live_loc 1 twice_state = visit_all mark_live_loc [5, 5] twice_state) \<and>
     (traverse 4 mark_live_loc 1 twice_state = Inr twice_state \<longrightarrow>
      visited 4 (heap twice_state) 1 \<noteq> None)"
    by (rule traverse_visits) (rule mark_live_loc_heap)
  with visited_twice_state show ?thesis by blast
qed

lemma twice_state_fields:
  "gc_mode twice_state = MARK_SWEEP_GC" "log_ready twice_state" "live twice_state = {}"
  "trace twice_state = []"
  by (simp_all add: twice_state_def)

text \<open>
  A location held by two slots is visited twice: marking from the Tup of \<open>twice_state\<close>
  logs the Num at location 5 two times.
\<close>

theorem traverse_visits_twice:
  "traverse 4 mark_live_loc 1 twice_state =
     Inr (twice_state\<lparr>live := {5}, trace := [Ev_ref_count 5 1, Ev_ref_count 5 1]\<rparr>)"
  unfolding fuel_4
  by (simp add: twice_state_heap twice_state_fields HeapSize_def Obj_type_ok rd_ok
      log_get_val_ok mark_live_loc_def log_ref_count_def log_msg_def)

subsection \<open>Assigning a slot to itself\<close>

lemma log_ref_count_addr_heap [simp]:
  "a < HeapSize \<Longrightarrow> log_ref_count_addr a n (s\<lparr>heap := h\<rparr>) = Inr ((log_msg (Ev_ref_count a n) s)\<lparr>heap := h\<rparr>)"
  by (simp add: log_ref_count_addr_ok)







lemma logged_Nil [simp]: "logged [] s = s"
  by (simp add: logged_def)

lemma logged_Cons: "logged (e # evs) s = logged evs (log_msg e s)"
  by (simp add: logged_def)


lemma logged_fields [simp]:
  "heap (logged evs s) = heap s" "top_loc (logged evs s) = top_loc s"
  "root (logged evs s) = root s" "live (logged evs s) = live s"
  "forwarding (logged evs s) = forwarding s" "gc_mode (logged evs s) = gc_mode s"
  "log_ready (logged evs s) = log_ready s"
  by (induction evs arbitrary: s) (simp_all add: logged_Cons)

lemma log_msg_root_update [simp]: "log_msg e (s\<lparr>root := r\<rparr>) = (log_msg e s)\<lparr>root := r\<rparr>"
  by (simp add: log_msg_def)

lemma logged_heap_update [simp]: "logged evs (s\<lparr>heap := h\<rparr>) = (logged evs s)\<lparr>heap := h\<rparr>"
  by (induction evs arbitrary: s) (simp_all add: logged_Cons)

lemma logged_root_update [simp]: "logged evs (s\<lparr>root := r\<rparr>) = (logged evs s)\<lparr>root := r\<rparr>"
  by (induction evs arbitrary: s) (simp_all add: logged_Cons)























subsection \<open>Growing a Vec\<close>

lemma fuel_6: "6 = Suc (Suc (Suc (Suc (Suc (Suc 0)))))"
  by simp

lemma Tup_init_loop_done:
  "this + 1 < HeapSize \<Longrightarrow> \<not> i < unat (heap s (this + 1)) \<Longrightarrow> Tup_init_loop this i s = Inr s"
  by (subst Tup_init_loop.simps) (simp add: rd_ok)

lemma Tup_init_loop_step:
  "this + 2 + i < HeapSize \<Longrightarrow> i < unat (heap s (this + 1)) \<Longrightarrow>
   Tup_init_loop this i s =
     bindr (if heap s (this + 2 + i) \<noteq> 0 then inc_ref_count (unat (heap s (this + 2 + i))) s
            else Inr s) (Tup_init_loop this (Suc i))"
  by (subst Tup_init_loop.simps) (simp add: rd_ok)

lemmas run_simps = ObjRef_ALLOC_def ObjRef_COPY_def ObjRef_SHARE_def Mem_alloc_eq Mem_reserve_eq
  init_ref_count_ok inc_ref_count_ok add_to_root_set_def fresh_hid_def TupRef_def TupRef_copy_def
  Tup_size_needed_def ObjRef_loc_def ObjRef_share_def read_barrier_def ObjRef_destroy_def
  Tup_init_def Obj_init_ok wr_ok rd_ok log_set_val_ok log_set_ref_ok Tup_init_loop_done
  Tup_init_loop_step Vec_init_def NumRef_def Num_init_def Mem_copy_def Obj_size_def Obj_type_ok
  Obj_header_ok log_copy_mem_def info_range_def Mem_free_ok log_ref_count_addr_ok
  HeapSize_def hdr_upd_def init_header_def Type_of_tag_def log_msg_def Let_def
  zero_range_def copy_words_up copy_down_def decode_header_def encode_header_def
  set_header_def by_value_def

lemma empty_Vec_state_ok:
  "bindr (VecRef 1 1 0 (initial_mem REF_COUNT_GC)) (NumRef 2 7) = Inr empty_Vec_state"
  unfolding empty_Vec_state_def VecRef_def initial_mem_def
  apply (simp add: run_simps)
  apply (rule ext)
  apply (simp add: numeral_3_eq_3)
  done

lemma VecRef_push_empty: "VecRef_push 4 1 2 empty_Vec_state = Inl AssertFail"
  unfolding fuel_4 empty_Vec_state_def VecRef_push_def VecRef_push_body_def VecRef_push_grow_def
  apply (simp add: run_simps)
  apply (simp add: Tup_set_def Tup_set_body_def run_simps)
  done

lemma full_Vec_state_ok:
  "bindr (bindr (VecRef 1 1 1 (initial_mem REF_COUNT_GC)) (NumRef 2 7)) (VecRef_push 4 1 2)
     = Inr full_Vec_state"
  unfolding fuel_4 full_Vec_state_def full_Vec_trace_def VecRef_def initial_mem_def
    VecRef_push_def VecRef_push_body_def VecRef_push_grow_def
  apply (simp add: run_simps Tup_set_def Tup_set_body_def Tup_slot_def)
  apply (rule ext)
  apply (simp add: numeral_3_eq_3)
  done

text \<open>
  A push onto a full Vec of capacity 1. The parameter of \<^verbatim>\<open>push\<close> counts the pushed object
  up. A new backing Tup of capacity 2 is allocated at location 9, the old slot is copied and
  its object's count bumped, the count of the new backing goes to 2 and back to 1 as the
  temporary handle dies, the old backing's count drops to 0 and it is freed, and the Vec's
  backing field is overwritten. Then \<^verbatim>\<open>Tup::set\<close>, with a parameter of its own, stores the
  value in slot 1, the length becomes 2, and the parameter of \<^verbatim>\<open>push\<close> dies.
\<close>

lemma VecRef_push_grows: "VecRef_push 6 1 2 full_Vec_state = Inr grown_Vec_state"
  unfolding fuel_6 full_Vec_state_def grown_Vec_state_def VecRef_push_def VecRef_push_body_def
    VecRef_push_grow_def
  apply (simp add: run_simps)
  apply (simp add: run_simps Tup_set_def Tup_set_body_def Tup_slot_def)
  apply (rule ext)
  apply (simp add: numeral_3_eq_3)
  done

text \<open>
  Claim C8 at a failing input. Under reference counting,
  \<^verbatim>\<open>VecRef v(0); NumRef x(7); v.push(x);\<close> from the initial state: the two constructors
  succeed, and the push, on a Vec whose length 0 equals the capacity 0 of its backing Tup,
  replaces the backing by one of capacity \<open>2 * 0 = 0\<close> and then fails the assertion
  \<^verbatim>\<open>i < len\<close> of \<^verbatim>\<open>Tup::set\<close>: the value is not stored.
\<close>

theorem VecRef_push_capacity_0_fails:
  "bindr (VecRef 1 1 0 (initial_mem REF_COUNT_GC)) (NumRef 2 7) = Inr empty_Vec_state \<and>
   VecRef_push 4 1 2 empty_Vec_state = Inl AssertFail"
  using empty_Vec_state_ok VecRef_push_empty by (rule conjI)

subsection \<open>The free event of a copying collection\<close>

lemma fuel_2: "2 = Suc (Suc 0)"
  by simp

lemma decode_1536 [simp]:
  "decode_header 1536 = \<lparr>ref_count = 0, mark = False, type_tag = 3, unused_bits = 0\<rparr>"
  by (simp add: decode_header_def)

lemma encode_Num [simp]:
  "encode_header \<lparr>ref_count = 0, mark = False, type_tag = 3, unused_bits = 0\<rparr> = 1536"
  by (simp add: encode_header_def)

lemma copy_down_2:
  "to \<noteq> Suc from \<Longrightarrow> copy_down h to from 2 = h(to := h from, Suc to := h (Suc from))"
  by (rule ext) (auto simp add: copy_down_def)

lemmas gc_simps = gc_def move_live_def mark_live_def mark_live_loc_def Obj_type_ok
  Obj_size_def rd_ok wr_ok HeapSize_def HeapSemiSize_def Mem_move_def Mem_reserve_eq
  Obj_init_ok log_copy_mem_def info_range_def fixup_references_def Obj_fixup_references_def
  loc_after_move_def log_free_mem_def hdr_upd_def init_header_def Type_of_tag_def log_msg_def
  copy_down_2





lemma copy_down_Str997:
  "copy_down ((\<lambda>i. 0)(1000 := 3072, 1001 := 997 :: UWd)) (Suc 0) 1000 999
     = (\<lambda>i. 0)(Suc 0 := 3072, Suc (Suc 0) := 997, 1000 := 3072, 1001 := 997)"
  by (rule ext) (auto simp add: copy_down_def)

lemma Str997_upper_ok:
  "bindr (gc 1 (initial_mem COPY_GC)) (StrRef_len 1 997) = Inr Str997_upper"
  apply (simp only: gc_copy_initial bindr_Inr)
  unfolding Str997_upper_def gc_copy_initial_result_def initial_mem_def
  apply (simp add: StrRef_len_def ObjRef_ALLOC_def Str_size_needed_def Mem_alloc_eq HeapSize_def)
  apply (simp add: init_ref_count_ok HeapSize_def add_to_root_set_def ObjRef_loc_def)
  apply (simp add: Str_init_len_def Obj_init_ok HeapSize_def wr_ok rd_ok log_set_val_ok)
  apply (simp add: log_msg_def hdr_upd_def init_header_def)
  done

lemma Str997_lower_ok: "gc 2 Str997_upper = Inr Str997_lower"
  unfolding Str997_upper_def Str997_lower_def fuel_2
  apply (simp add: gc_def move_live_def mark_live_def mark_live_loc_def Obj_type_ok
      Obj_size_def rd_ok wr_ok HeapSize_def HeapSemiSize_def Mem_move_def Mem_reserve_eq
      Obj_init_ok log_copy_mem_def info_range_def Type_of_tag_def log_msg_def
      copy_words_down copy_down_Str997)
  apply (simp add: gc_simps)
  done




text \<open>
  The case left out, \<^verbatim>\<open>Mem::gc(); StrRef s(997); Mem::gc();\<close> from the initial state: the
  second collection starts with \<open>top = 1999\<close> and moves the Str from location 1000 to location
  1, where it fills the lower region, so that \<open>top\<close> ends at \<^verbatim>\<open>HeapSemiSize\<close>. The code takes
  the final \<open>top\<close> for one of the upper region and logs \<^verbatim>\<open>free(1, 999)\<close>: the region that
  now holds the Str, not the one the collection left.
\<close>

lemma gc_copy_logs_survivors_region:
  "bindr (gc 1 (initial_mem COPY_GC)) (StrRef_len 1 997) = Inr Str997_upper \<and>
   gc 2 Str997_upper = Inr Str997_lower \<and>
   top_loc Str997_upper = 1999 \<and> top_loc Str997_lower = 1000 \<and>
   map_of (root Str997_lower) 1 = Some 1 \<and>
   Obj_type Str997_lower 1 = Inr TStr \<and>
   trace Str997_lower = trace Str997_upper @
     [Ev_alloc 1 999, Ev_init 1000 '':* '', Ev_copy 1 1000 999, Ev_free 1 999]"
  using Str997_upper_ok Str997_lower_ok
  by (simp add: Str997_upper_def Str997_lower_def Obj_type_ok HeapSize_def Type_of_tag_def)

end
